theory Spec2Isabelle
  imports Main "HOL-Library.Word" "HOL-Library.Signed_Division"
begin

unbundle bit_operations_syntax

section \<open>JavaScript values used by combinatorics.js\<close>

text \<open>
  The library computes with two integer representations: a Number (a double that holds
  an integer) and a BigInt. \<open>Num i\<close> is the Number whose value is the integer \<open>i\<close>,
  \<open>Big i\<close> the BigInt \<open>i\<close>. A Number holds every integer of magnitude at most
  \<open>2^53\<close> exactly; on such integers the conversion \<open>Number(p)\<close> of a BigInt and Number
  arithmetic with such results are exact, and \<open>Num\<close> is used for that range only: the
  statements below keep the counts non-negative, the digits that are converted and the
  Number ranks within it. Line 19 binds \<open>_BI\<close> to \<open>BigInt\<close> wherever the engine has it;
  the embedding is of the library on such an engine. The arguments of \<open>permutation\<close>,
  \<open>combination\<close>, \<open>factorial\<close> and \<open>factoradic\<close> go through \<open>_BI\<close> at once, so these
  functions take the integer values.
\<close>

datatype error = RangeError | TypeError

datatype jsint = Num int | Big int

fun val :: "jsint \<Rightarrow> int" where
  "val (Num i) = i"
| "val (Big i) = i"

definition MAX_SAFE_INTEGER :: int where
  "MAX_SAFE_INTEGER = 2 ^ 53 - 1"

text \<open>The recurring expression \<open>p <= Number.MAX_SAFE_INTEGER ? Number(p) : p\<close> on a BigInt \<open>p\<close>.\<close>

definition downcast :: "int \<Rightarrow> jsint" where
  "downcast p = (if p \<le> MAX_SAFE_INTEGER then Num p else Big p)"

section \<open>Exact arithmetic: permutation, combination, factorial\<close>

text \<open>
  \<open>while (k--) p *= n--;\<close> on BigInts: the test reads \<open>k\<close> and then decrements it, the
  body multiplies by \<open>n\<close> and then decrements it. For a negative \<open>k\<close> the test never
  reads zero and the loop does not end: the value \<open>None\<close>.
\<close>

partial_function (option) permutation_loop :: "int \<Rightarrow> int \<Rightarrow> int \<Rightarrow> int option" where
  "permutation_loop p n k =
     (if k \<noteq> 0 then permutation_loop (p * n) (n - 1) (k - 1) else Some p)"

declare permutation_loop.simps [code]

definition permutation :: "int \<Rightarrow> int \<Rightarrow> jsint option" where
  "permutation n k = map_option downcast (permutation_loop 1 n k)"

definition factorial :: "int \<Rightarrow> jsint option" where
  "factorial n = permutation n n"

text \<open>
  The operator \<open>/\<close>. Two BigInts divide truncating towards zero, and a zero divisor
  raises a RangeError. Two Numbers divide as doubles: the result is the integer
  quotient when the divisor is non-zero and divides the dividend, and otherwise a value
  that is no integer (a fraction, an infinity or NaN), written \<open>None\<close>. A BigInt and a
  Number do not mix: a TypeError.
\<close>

fun divide :: "jsint \<Rightarrow> jsint \<Rightarrow> error + jsint option" where
  "divide (Big a) (Big b) = (if b = 0 then Inl RangeError else Inr (Some (Big (a sdiv b))))"
| "divide (Num a) (Num b) = (if b \<noteq> 0 \<and> b dvd a then Inr (Some (Num (a div b))) else Inr None)"
| "divide (Big a) (Num b) = Inl TypeError"
| "divide (Num a) (Big b) = Inl TypeError"

text \<open>\<open>_BI(v)\<close>, that is \<open>BigInt(v)\<close>: a RangeError on a Number that is no integer.\<close>

fun BI :: "jsint option \<Rightarrow> error + int" where
  "BI (Some v) = Inr (val v)"
| "BI None = Inl RangeError"

text \<open>
  \<open>combination(n, k)\<close>: \<open>P(n, k)\<close> is evaluated first, then \<open>P(k, k)\<close>; each may fail to
  return (\<open>None\<close>), and the division or the conversion may raise.
\<close>

definition combination :: "int \<Rightarrow> int \<Rightarrow> (error + jsint) option" where
  "combination n k =
     (case permutation n k of
        None \<Rightarrow> None
      | Some a \<Rightarrow>
          (case permutation k k of
             None \<Rightarrow> None
           | Some b \<Rightarrow>
               Some (case divide a b of
                       Inl e \<Rightarrow> Inl e
                     | Inr q \<Rightarrow>
                         (case BI q of
                            Inl e \<Rightarrow> Inl e
                          | Inr c \<Rightarrow> Inr (downcast c)))))"

section \<open>Factoradic converter\<close>

text \<open>
  A JavaScript array is a list of slots; \<open>None\<close> is a hole, which reads as
  \<open>undefined\<close>. The assignment \<open>a[i] = v\<close> overwrites a slot in range and extends the
  array with holes when \<open>i\<close> is beyond its end; a negative \<open>i\<close> names a property
  and leaves the slots alone.
\<close>

definition array_set :: "'a option list \<Rightarrow> int \<Rightarrow> 'a \<Rightarrow> 'a option list" where
  "array_set a i v =
     (if i < 0 then a
      else if nat i < length a then a[nat i := Some v]
      else a @ replicate (nat i - length a) None @ [Some v])"

text \<open>\<open>for (l = 1; bf < bn; bf *= _BI(++l));\<close> returning the final \<open>l\<close> and \<open>bf\<close>.\<close>

partial_function (option) factoradic_width :: "int \<Rightarrow> int \<Rightarrow> int \<Rightarrow> (int \<times> int) option" where
  "factoradic_width l bf bn =
     (if bf < bn then factoradic_width (l + 1) (bf * (l + 1)) bn else Some (l, bf))"

declare factoradic_width.simps [code]

text \<open>
  \<open>for (; l; bf /= _BI(l--)) { digits[l] = Math.floor(Number(bn / bf)); bn %= bf; }\<close>.
  BigInt \<open>/\<close> and \<open>%\<close> truncate towards zero and raise a RangeError on a zero
  divisor; the divisor \<open>l\<close> of the update is non-zero by the loop test.
\<close>

partial_function (option) factoradic_digits ::
  "int \<Rightarrow> int \<Rightarrow> int \<Rightarrow> int option list \<Rightarrow> (error + int option list) option" where
  "factoradic_digits l bf bn digits =
     (if l \<noteq> 0 then
        (if bf = 0 then Some (Inl RangeError)
         else factoradic_digits (l - 1) (bf sdiv l) (bn smod bf) (array_set digits l (bn sdiv bf)))
      else Some (Inr digits))"

declare factoradic_digits.simps [code]

definition factoradic :: "int \<Rightarrow> int \<Rightarrow> (error + int option list) option" where
  "factoradic n l =
     (let bn = n; bf = 1 in
      case (if l = 0 then
              (case factoradic_width 1 bf bn of
                 None \<Rightarrow> None
               | Some (l, bf) \<Rightarrow> Some (if bn < bf then (l - 1, bf sdiv l) else (l, bf)))
            else
              (case factorial l of
                 None \<Rightarrow> None
               | Some f \<Rightarrow> Some (l, val f))) of
        None \<Rightarrow> None
      | Some (l, bf) \<Rightarrow> factoradic_digits l bf bn [Some 0])"

section \<open>Permutation\<close>

text \<open>
  The argument \<open>seed\<close> of a constructor is an Iterable. Two things are read from it: the
  elements that \<open>[...seed]\<close> yields, and its property \<open>seed.length\<close>, which is
  \<open>undefined\<close> (\<open>None\<close>) for an iterable without one (a Set, a generator) and need not
  be the number of elements (for a string it counts UTF-16 code units, while the spread
  yields code points). For an array the two agree.
\<close>

record 'a iterable =
  it_elements :: "'a list"
  it_length :: "int option"

definition array :: "'a list \<Rightarrow> 'a iterable" where
  "array xs = \<lparr>it_elements = xs, it_length = Some (int (length xs))\<rparr>"

text \<open>
  The object built by the constructor. \<open>this.seed = [...seed]\<close> is a fresh array with
  the elements of the argument; \<open>size\<close> is checked against \<open>this.seed.length\<close>, whereas
  \<open>length\<close> is computed from \<open>seed.length\<close> of the argument, and \<open>_BI(undefined)\<close> in
  \<open>permutation\<close> raises a TypeError. The fields are named after the class, since \<open>size\<close>
  and \<open>length\<close> are constants of HOL.
\<close>

record 'a Permutation =
  p_seed :: "'a list"
  p_size :: int
  p_length :: jsint

text \<open>\<open>_BI === Number\<close>: whether line 19 had to fall back to \<open>Number\<close>.\<close>

definition BI_is_Number :: bool where
  "BI_is_Number = False"

definition Permutation_new :: "'a iterable \<Rightarrow> int \<Rightarrow> (error + 'a Permutation) option" where
  "Permutation_new seed size' =
     (let this_seed = it_elements seed;
          this_size = (if 0 < size' \<and> size' \<le> int (length this_seed) then size'
                       else int (length this_seed))
      in case it_length seed of
           None \<Rightarrow> Some (Inl TypeError)
         | Some seed_length \<Rightarrow>
             (case permutation seed_length this_size of
                None \<Rightarrow> None
              | Some length' \<Rightarrow>
                  Some (if BI_is_Number \<and> MAX_SAFE_INTEGER < val length' then Inl RangeError
                        else Inr \<lparr>p_seed = this_seed, p_size = this_size,
                                  p_length = length'\<rparr>)))"

text \<open>\<open>a[i]\<close>: \<open>undefined\<close> (\<open>None\<close>) for a hole and outside the array.\<close>

definition array_get :: "'a option list \<Rightarrow> int \<Rightarrow> 'a option" where
  "array_get a i = (if 0 \<le> i \<and> nat i < length a then a ! nat i else None)"

text \<open>
  \<open>source.splice(start, 1)[0]\<close> together with the array it leaves. An \<open>undefined\<close>
  start counts as 0, a negative one counts from the end, and both ends clamp; when the
  start is at the end nothing is removed and \<open>[0]\<close> of the empty result is
  \<open>undefined\<close>.
\<close>

definition splice1 :: "'a list \<Rightarrow> int option \<Rightarrow> 'a option \<times> 'a list" where
  "splice1 source start =
     (let len = int (length source);
          relativeStart = (case start of None \<Rightarrow> 0 | Some s \<Rightarrow> s);
          actualStart = (if relativeStart < 0 then max (len + relativeStart) 0
                         else min relativeStart len)
      in if actualStart < len
         then (Some (source ! nat actualStart),
               take (nat actualStart) source @ drop (nat actualStart + 1) source)
         else (None, source))"

text \<open>
  \<open>for (let i = this.seed.length - 1; offset <= i; i--)
  result.push(source.splice(digits[i], 1)[0]);\<close>
\<close>

function nth_loop ::
  "int option list \<Rightarrow> int \<Rightarrow> int \<Rightarrow> 'a list \<Rightarrow> 'a option list \<Rightarrow> 'a option list" where
  "nth_loop digits offset i source result =
     (if offset \<le> i then
        (case splice1 source (array_get digits i) of
           (removed, source') \<Rightarrow> nth_loop digits offset (i - 1) source' (result @ [removed]))
      else result)"
  by pat_completeness auto
termination
  by (relation "measure (\<lambda>(digits, offset, i, source, result). nat (i + 1 - offset))") auto

definition Permutation_nth :: "'a Permutation \<Rightarrow> jsint \<Rightarrow> (error + 'a option list) option" where
  "Permutation_nth this n =
     (let offset = int (length (p_seed this)) - p_size this in
      case factorial offset of
        None \<Rightarrow> None
      | Some skip \<Rightarrow>
          (case factoradic (val n * val skip) (int (length (p_seed this))) of
             None \<Rightarrow> None
           | Some (Inl e) \<Rightarrow> Some (Inl e)
           | Some (Inr digits) \<Rightarrow>
               Some (Inr (nth_loop digits offset (int (length (p_seed this)) - 1) (p_seed this) []))))"

section \<open>Combination\<close>

text \<open>
  Bitwise operators on Numbers work on 32 bits: each operand goes through \<open>ToInt32\<close>
  (reduction modulo \<open>2^32\<close> into the signed range) and the result is a signed 32-bit
  integer. \<open>>>\<close> shifts arithmetically.
\<close>

definition ToInt32 :: "int \<Rightarrow> 32 word" where
  "ToInt32 x = word_of_int x"

definition and32 :: "int \<Rightarrow> int \<Rightarrow> int" where
  "and32 a b = sint (ToInt32 a AND ToInt32 b)"

definition or32 :: "int \<Rightarrow> int \<Rightarrow> int" where
  "or32 a b = sint (ToInt32 a OR ToInt32 b)"

definition shr32 :: "int \<Rightarrow> nat \<Rightarrow> int" where
  "shr32 a k = sint (signed_drop_bit k (ToInt32 a))"

text \<open>
  \<open>findIndex\<close>, the local function of \<open>Combination.nth\<close>. On BigInts \<open>&\<close>, \<open>|\<close> and
  \<open>>>\<close> are those of unbounded two's complement integers and \<open>/\<close> truncates, raising a
  RangeError on a zero divisor. On Numbers \<open>t / s\<close> is a double that is read only by
  \<open>>>\<close>, whose \<open>ToInt32\<close> truncates it towards zero and takes an infinity or NaN
  (the case \<open>s = 0\<close>) to 0.
\<close>

fun findIndex :: "jsint \<Rightarrow> error + jsint" where
  "findIndex (Big n) =
     (if n \<le> 2 then Inr (Big n)
      else let p = n - 1;
               s = p AND (- p);
               r = p + s;
               t = r AND (- r)
           in if s = 0 then Inl RangeError
              else let m = drop_bit 1 (t sdiv s) - 1
                   in Inr (Big (r OR m)))"
| "findIndex (Num n) =
     (if n \<le> 2 then Inr (Num n)
      else let p = n - 1;
               s = and32 p (- p);
               r = p + s;
               t = and32 r (- r);
               m = shr32 (if s = 0 then 0 else t sdiv s) 1 - 1
           in Inr (Num (or32 r m)))"

record 'a Combination =
  c_perm :: "'a Permutation"
  c_size :: int
  c_length :: jsint

text \<open>
  The constructor hands the copy \<open>[...seed]\<close>, an array, to \<open>Permutation\<close>, and computes
  its own \<open>length\<close> from \<open>seed.length\<close> of the argument.
\<close>

definition Combination_new :: "'a iterable \<Rightarrow> int \<Rightarrow> (error + 'a Combination) option" where
  "Combination_new seed size' =
     (case Permutation_new (array (it_elements seed)) size' of
        None \<Rightarrow> None
      | Some (Inl e) \<Rightarrow> Some (Inl e)
      | Some (Inr perm) \<Rightarrow>
          (case it_length seed of
             None \<Rightarrow> Some (Inl TypeError)
           | Some seed_length \<Rightarrow>
               (case combination seed_length (p_size perm) of
                  None \<Rightarrow> None
                | Some (Inl e) \<Rightarrow> Some (Inl e)
                | Some (Inr length') \<Rightarrow>
                    Some (Inr \<lparr>c_perm = perm, c_size = p_size perm, c_length = length'\<rparr>))))"

definition Combination_nth :: "'a Combination \<Rightarrow> jsint \<Rightarrow> (error + 'a option list) option" where
  "Combination_nth this n =
     (case findIndex n of
        Inl e \<Rightarrow> Some (Inl e)
      | Inr m \<Rightarrow> Permutation_nth (c_perm this) m)"

section \<open>BaseN\<close>

text \<open>
  \<open>Array(size)\<close> is an array of \<open>size\<close> holes, and a RangeError when \<open>size\<close> is
  negative or above \<open>2^32 - 1\<close>; \<open>fill\<close> writes its argument into every slot;
  \<open>reduce\<close> without an initial value passes over holes, raises a TypeError when no
  element is left and folds from the first element otherwise.
\<close>

definition Array :: "int \<Rightarrow> error + 'a option list" where
  "Array size' = (if 0 \<le> size' \<and> size' < 2 ^ 32 then Inr (replicate (nat size') None)
                  else Inl RangeError)"

definition fill :: "'a option list \<Rightarrow> 'a \<Rightarrow> 'a option list" where
  "fill a v = replicate (length a) (Some v)"

definition reduce :: "('a \<Rightarrow> 'a \<Rightarrow> 'a) \<Rightarrow> 'a option list \<Rightarrow> error + 'a" where
  "reduce f a =
     (case [v. Some v \<leftarrow> a] of
        [] \<Rightarrow> Inl TypeError
      | x # xs \<Rightarrow> Inr (foldl f x xs))"

record 'a BaseN =
  b_seed :: "'a list"
  b_size :: int
  b_base :: int
  b_length :: jsint

definition BaseN_new :: "'a list \<Rightarrow> int \<Rightarrow> error + 'a BaseN" where
  "BaseN_new seed size' =
     (let base = int (length seed) in
      case Array size' of
        Inl e \<Rightarrow> Inl e
      | Inr a \<Rightarrow>
          (case reduce (\<lambda>a v. a * v) (fill a base) of
             Inl e \<Rightarrow> Inl e
           | Inr length' \<Rightarrow>
               Inr \<lparr>b_seed = seed, b_size = size', b_base = base, b_length = downcast length'\<rparr>))"

text \<open>\<open>seed[d]\<close> on an array without holes: \<open>undefined\<close> outside it.\<close>

definition element :: "'a list \<Rightarrow> int \<Rightarrow> 'a option" where
  "element a i = (if 0 \<le> i \<and> nat i < length a then Some (a ! nat i) else None)"

text \<open>
  The digit loop of \<open>BaseN.nth\<close>. \<open>big\<close> says that \<open>n\<close> is a BigInt. \<open>%\<close> takes the
  sign of the dividend and \<open>(n - d) / base\<close> is exact. With \<open>base = 0\<close> a BigInt \<open>%\<close>
  raises a RangeError, and a Number \<open>%\<close> gives NaN, which stays NaN: every remaining
  round pushes \<open>seed[NaN]\<close>, that is \<open>undefined\<close>.
\<close>

function BaseN_loop ::
  "'a list \<Rightarrow> int \<Rightarrow> bool \<Rightarrow> int \<Rightarrow> int \<Rightarrow> int \<Rightarrow> 'a option list \<Rightarrow> error + 'a option list" where
  "BaseN_loop seed size' big base i n result =
     (if i < size' then
        (if base = 0 then
           (if big then Inl RangeError else Inr (result @ replicate (nat (size' - i)) None))
         else let d = n smod base
              in BaseN_loop seed size' big base (i + 1) ((n - d) sdiv base) (result @ [element seed d]))
      else Inr result)"
  by pat_completeness auto
termination
  by (relation "measure (\<lambda>(seed, size', big, base, i, n, result). nat (size' - i))") auto

fun is_bigint :: "jsint \<Rightarrow> bool" where
  "is_bigint (Big n) = True"
| "is_bigint (Num n) = False"

definition BaseN_nth :: "'a BaseN \<Rightarrow> jsint \<Rightarrow> error + 'a option list" where
  "BaseN_nth this n =
     (if val n < 0 then Inl RangeError
      else if val (b_length this) \<le> val n then Inl RangeError
      else BaseN_loop (b_seed this) (b_size this) (is_bigint n) (b_base this) 0 (val n) [])"

section \<open>PowerSet\<close>

text \<open>
  The constructor keeps the reference it is given (\<open>this.seed = seed\<close>), so what \<open>nth\<close>
  reads is the caller's array as it is at the time of the call. A store maps the
  address of an array to its elements; the object holds the address.
\<close>

type_synonym addr = nat

type_synonym 'a store = "addr \<Rightarrow> 'a list"

record PowerSet =
  ps_seed :: addr
  ps_length :: jsint

definition PowerSet_new :: "'a store \<Rightarrow> addr \<Rightarrow> PowerSet" where
  "PowerSet_new \<sigma> seed =
     (let length' = push_bit (length (\<sigma> seed)) (1::int)
      in \<lparr>ps_seed = seed, ps_length = downcast length'\<rparr>)"

text \<open>
  \<open>for (let i = 0; n; n >>= one, i++) if (n & one) result.push(this.seed[i]);\<close>
  On a BigInt the operators are those of unbounded integers; on a Number they work on
  32 bits. The loop ends when \<open>n\<close> reaches 0, which a negative \<open>n\<close> never does.
\<close>

partial_function (option) PowerSet_loop ::
  "'a list \<Rightarrow> bool \<Rightarrow> int \<Rightarrow> int \<Rightarrow> 'a option list \<Rightarrow> 'a option list option" where
  "PowerSet_loop seed big i n result =
     (if n \<noteq> 0 then
        (if big then
           PowerSet_loop seed big (i + 1) (drop_bit 1 n)
             (if n AND 1 \<noteq> 0 then result @ [element seed i] else result)
         else
           PowerSet_loop seed big (i + 1) (shr32 n 1)
             (if and32 n 1 \<noteq> 0 then result @ [element seed i] else result))
      else Some result)"

declare PowerSet_loop.simps [code]

definition PowerSet_nth :: "'a store \<Rightarrow> PowerSet \<Rightarrow> jsint \<Rightarrow> (error + 'a option list) option" where
  "PowerSet_nth \<sigma> this n =
     (if val n < 0 then Some (Inl RangeError)
      else if val (ps_length this) \<le> val n then Some (Inl RangeError)
      else map_option Inr (PowerSet_loop (\<sigma> (ps_seed this)) (is_bigint n) 0 (val n) []))"

section \<open>CartesianProduct\<close>

record 'a CartesianProduct =
  cp_seed :: "'a list list"
  cp_size :: int
  cp_length :: jsint

definition CartesianProduct_new :: "'a list list \<Rightarrow> 'a CartesianProduct" where
  "CartesianProduct_new args =
     (let this_seed = map (\<lambda>v. v) args;
          length' = foldl (\<lambda>a v. a * int (length v)) 1 this_seed
      in \<lparr>cp_seed = this_seed, cp_size = int (length this_seed), cp_length = downcast length'\<rparr>)"

text \<open>
  The digit loop of \<open>CartesianProduct.nth\<close>: as in \<open>BaseN.nth\<close>, with the base taken
  from factor \<open>i\<close>. Reading \<open>.length\<close> of a factor that is not there raises a
  TypeError.
\<close>

function CartesianProduct_loop ::
  "'a list list \<Rightarrow> int \<Rightarrow> bool \<Rightarrow> int \<Rightarrow> int \<Rightarrow> 'a option list \<Rightarrow> error + 'a option list" where
  "CartesianProduct_loop seed size' big i n result =
     (if i < size' then
        (case element seed i of
           None \<Rightarrow> Inl TypeError
         | Some factor \<Rightarrow>
             (let base = int (length factor) in
              if base = 0 then
                (if big then Inl RangeError else Inr (result @ replicate (nat (size' - i)) None))
              else let d = n smod base
                   in CartesianProduct_loop seed size' big (i + 1) ((n - d) sdiv base)
                        (result @ [element factor d])))
      else Inr result)"
  by pat_completeness auto
termination
  by (relation "measure (\<lambda>(seed, size', big, i, n, result). nat (size' - i))") auto

definition CartesianProduct_nth :: "'a CartesianProduct \<Rightarrow> jsint \<Rightarrow> error + 'a option list" where
  "CartesianProduct_nth this n =
     (if val n < 0 then Inl RangeError
      else if val (cp_length this) \<le> val n then Inl RangeError
      else CartesianProduct_loop (cp_seed this) (cp_size this) (is_bigint n) 0 (val n) [])"

section \<open>The remap of the specification\<close>

text \<open>
  The binomial-coefficient formulation that the specification sets beside
  \<open>findIndex\<close> (its section 4.4); it is not part of the source. A combination rank is
  \<open>r = \<Sum> C(c\<^sub>i, i)\<close> over the chosen sorted index set \<open>c\<^sub>1 < \<dots> < c\<^sub>k\<close>. The inverse
  searches each \<open>c\<^sub>i\<close>, from \<open>i = k\<close> down, as the greatest \<open>c\<close> below the seed length
  with \<open>C(c, i)\<close> at most what is left of the rank. The remap of \<open>r\<close> is the rank at
  which the permutation unranker presents these positions in ascending order: position
  \<open>c\<^sub>j\<close> is, after \<open>j\<close> smaller ones are gone, at index \<open>c\<^sub>j - j\<close> of what is left, and
  that index has the weight \<open>(N-1-j)! / (N-k)!\<close>.
\<close>

fun search_binomial :: "nat \<Rightarrow> nat \<Rightarrow> nat \<Rightarrow> nat" where
  "search_binomial i r 0 = 0"
| "search_binomial i r (Suc c) = (if Suc c choose i \<le> r then Suc c else search_binomial i r c)"

fun combinadic :: "nat \<Rightarrow> nat \<Rightarrow> nat \<Rightarrow> nat list" where
  "combinadic N 0 r = []"
| "combinadic N (Suc i) r =
     (let c = search_binomial (Suc i) r (N - 1)
      in combinadic N i (r - (c choose Suc i)) @ [c])"

definition selection_rank :: "nat \<Rightarrow> nat list \<Rightarrow> nat" where
  "selection_rank N cs =
     (\<Sum>j<length cs. (cs ! j - j) * (fact (N - 1 - j) div fact (N - length cs)))"

definition remap_binomial :: "nat \<Rightarrow> nat \<Rightarrow> nat \<Rightarrow> nat" where
  "remap_binomial N k r = selection_rank N (combinadic N k r)"

section \<open>Closed forms used in the statements and proofs\<close>

text \<open>
  Digit \<open>i\<close> of the factorial-base expansion of \<open>n\<close> on positions \<open>0..L\<close>: position 0
  is always 0, the top position takes the whole quotient, every other position is the
  quotient of the remainder modulo \<open>(i+1)!\<close>.
\<close>

definition factoradic_digit :: "int \<Rightarrow> nat \<Rightarrow> nat \<Rightarrow> int" where
  "factoradic_digit n L i =
     (if i = 0 then 0 else if i = L then n div fact L else (n mod fact (Suc i)) div fact i)"


text \<open>
  Decoding of a digit sequence into a selection: \<open>c\<close> times, the digit at position
  (length of what is left, minus one) names the element that is taken out next.
\<close>

fun select :: "(nat \<Rightarrow> nat) \<Rightarrow> nat \<Rightarrow> 'a list \<Rightarrow> 'a list" where
  "select d 0 source = []"
| "select d (Suc c) source =
     (let j = d (length source - 1)
      in source ! j # select d c (take j source @ drop (Suc j) source))"

text \<open>Digit \<open>m\<close> of \<open>v\<close> in the factorial base, as an index.\<close>

definition lehmer_digit :: "int \<Rightarrow> nat \<Rightarrow> nat" where
  "lehmer_digit v m = nat ((v mod fact (Suc m)) div fact m)"

section \<open>The counting functions\<close>

lemma permutation_loop_nat:
  "permutation_loop p n (int k) = Some (p * (\<Prod>i<k. n - int i))"
proof (induction k arbitrary: p n)
  case 0
  show ?case by (subst permutation_loop.simps) simp
next
  case (Suc k)
  have step: "permutation_loop p n (int (Suc k)) = permutation_loop (p * n) (n - 1) (int k)"
    by (subst permutation_loop.simps) simp
  have shift: "(\<Prod>i<k. n - 1 - int i) = (\<Prod>i<k. n - int (Suc i))"
    by (simp add: algebra_simps)
  have split: "(\<Prod>i<Suc k. n - int i) = n * (\<Prod>i<k. n - int (Suc i))"
    by (subst prod.lessThan_Suc_shift) simp
  show ?case
    unfolding step Suc.IH shift split by (simp add: mult.assoc)
qed

lemma permutation_loop_returns:
  "0 \<le> k \<Longrightarrow> permutation_loop p n k = Some (p * (\<Prod>i<nat k. n - int i))"
  using permutation_loop_nat [of p n "nat k"] by simp

lemma permutation_returns:
  "0 \<le> n \<Longrightarrow> 0 \<le> k \<Longrightarrow> permutation n k = Some (downcast (\<Prod>i<nat k. n - int i))"
  by (simp add: permutation_def permutation_loop_returns)




text \<open>
  Claim C6 (the code departs from it). \<open>combination(30, 15)\<close>: \<open>P(30, 15)\<close> exceeds
  \<open>MAX_SAFE_INTEGER\<close> and comes back as a BigInt, \<open>P(15, 15)\<close> does not and comes back as
  a Number, and \<open>/\<close> on the two raises a TypeError instead of returning
  \<open>C(30, 15) = 155117520\<close>.
\<close>

theorem combination_30_15_TypeError:
  "combination 30 15 = Some (Inl TypeError)"
proof -
  have a: "permutation 30 15 = Some (Big 202843204931727360000)"
    by (simp add: permutation_returns eval_nat_numeral downcast_def MAX_SAFE_INTEGER_def)
  have b: "permutation 15 15 = Some (Num 1307674368000)"
    by (simp add: permutation_returns eval_nat_numeral downcast_def MAX_SAFE_INTEGER_def)
  show ?thesis
    by (simp add: combination_def a b)
qed

section \<open>The factoradic converter\<close>

lemma sdiv_nonneg: "0 \<le> a \<Longrightarrow> 0 \<le> b \<Longrightarrow> a sdiv b = a div (b::int)"
  by (cases "a = 0"; cases "b = 0") (simp_all add: signed_divide_int_def sgn_if)

lemma fact_sdiv_Suc: "fact (Suc k) sdiv int (Suc k) = (fact k :: int)"
proof -
  have "(fact (Suc k) :: int) sdiv int (Suc k) = fact (Suc k) div int (Suc k)"
    by (rule sdiv_nonneg) simp_all
  also have "\<dots> = fact k"
    by (simp del: of_nat_Suc)
  finally show ?thesis .
qed

lemma int_Suc_pred: "int (Suc k) - 1 = int k"
  by simp

lemma factoradic_digits_returns:
  "\<exists>ds'. factoradic_digits (int k) (fact k) bn ds = Some (Inr ds')"
proof (induction k arbitrary: bn ds)
  case 0
  show ?case by (subst factoradic_digits.simps) simp
next
  case (Suc k)
  have "factoradic_digits (int (Suc k)) (fact (Suc k)) bn ds =
        factoradic_digits (int k) (fact k) (bn smod fact (Suc k))
          (array_set ds (int (Suc k)) (bn sdiv fact (Suc k)))"
    by (subst factoradic_digits.simps) (simp add: fact_sdiv_Suc int_Suc_pred del: of_nat_Suc fact_Suc)
  then show ?case using Suc.IH by simp
qed

lemma factoradic_digits_closed:
  "0 \<le> bn \<Longrightarrow> k < length ds \<Longrightarrow>
   \<exists>ds'. factoradic_digits (int k) (fact k) bn ds = Some (Inr ds') \<and>
         length ds' = length ds \<and>
         (\<forall>i<length ds. ds' ! i =
            (if 1 \<le> i \<and> i \<le> k then Some (factoradic_digit bn k i) else ds ! i))"
proof (induction k arbitrary: bn ds)
  case 0
  show ?case by (subst factoradic_digits.simps) simp
next
  case (Suc k)
  let ?v = "bn div fact (Suc k)"
  let ?bn = "bn mod fact (Suc k)"
  let ?ds = "ds[Suc k := Some ?v]"
  have step: "factoradic_digits (int (Suc k)) (fact (Suc k)) bn ds =
        factoradic_digits (int k) (fact k) ?bn ?ds"
    using Suc.prems
    by (subst factoradic_digits.simps)
       (simp add: fact_sdiv_Suc int_Suc_pred sdiv_nonneg smod_mod_positive array_set_def
             del: of_nat_Suc fact_Suc)
  have "0 \<le> ?bn" by simp
  moreover have "k < length ?ds" using Suc.prems by simp
  ultimately obtain ds' where
    r: "factoradic_digits (int k) (fact k) ?bn ?ds = Some (Inr ds')" and
    l: "length ds' = length ?ds" and
    d: "\<forall>i<length ?ds. ds' ! i =
            (if 1 \<le> i \<and> i \<le> k then Some (factoradic_digit ?bn k i) else ?ds ! i)"
    using Suc.IH [of ?bn ?ds] by blast
  have "ds' ! i = (if 1 \<le> i \<and> i \<le> Suc k then Some (factoradic_digit bn (Suc k) i) else ds ! i)"
    if i: "i < length ds" for i
  proof -
    consider "i = 0" | "1 \<le> i" "i < k" | "i = k" "1 \<le> k" | "i = Suc k" | "Suc k < i"
      by linarith
    then show ?thesis
    proof cases
      case 2
      have "(fact (Suc i) :: int) dvd fact (Suc k)"
        using 2 by (intro fact_dvd) simp
      then have "?bn mod fact (Suc i) = bn mod fact (Suc i)"
        by (rule mod_mod_cancel)
      then show ?thesis using 2 d i by (simp add: factoradic_digit_def del: fact_Suc)
    qed (use d i in \<open>simp_all add: factoradic_digit_def del: fact_Suc\<close>)
  qed
  then show ?case using step r l by simp
qed


lemma factoradic_width_returns:
  "1 \<le> l \<Longrightarrow>
   \<exists>m\<ge>l. factoradic_width (int l) (fact l) bn = Some (int m, fact m) \<and>
         bn \<le> fact m \<and> (m = l \<or> fact (m - 1) < bn)"
proof (induction "nat bn - l" arbitrary: l)
  case 0
  have "int l \<le> fact l" by (metis fact_ge_self of_nat_fact of_nat_le_iff)
  with 0 have "\<not> fact l < bn" by linarith
  then show ?case
    by (subst factoradic_width.simps) auto
next
  case (Suc d)
  show ?case
  proof (cases "fact l < bn")
    case False
    then show ?thesis by (subst factoradic_width.simps) auto
  next
    case True
    have step: "factoradic_width (int l) (fact l) bn = factoradic_width (int (Suc l)) (fact (Suc l)) bn"
      using True by (subst factoradic_width.simps) (simp add: algebra_simps)
    have "d = nat bn - Suc l" using Suc.hyps by simp
    then obtain m where m: "m \<ge> Suc l"
      "factoradic_width (int (Suc l)) (fact (Suc l)) bn = Some (int m, fact m)"
      "bn \<le> fact m" "m = Suc l \<or> fact (m - 1) < bn"
      using Suc.hyps(1) [of "Suc l"] by auto
    have "fact (m - 1) < bn" using m(4) True by auto
    then show ?thesis using m step by (intro exI [of _ m]) simp
  qed
qed


lemma factoradic_digits_init:
  assumes "0 \<le> n"
  shows "factoradic_digits (int L) (fact L) n [Some 0] =
         Some (Inr (map (\<lambda>i. Some (factoradic_digit n L i)) [0..<Suc L]))"
proof (cases L)
  case 0
  then show ?thesis
    by (subst factoradic_digits.simps) (simp add: factoradic_digit_def)
next
  case (Suc k)
  let ?v = "n div fact (Suc k)"
  let ?bn = "n mod fact (Suc k)"
  let ?ds = "Some 0 # replicate k None @ [Some ?v]"
  have step: "factoradic_digits (int (Suc k)) (fact (Suc k)) n [Some 0] =
        factoradic_digits (int k) (fact k) ?bn ?ds"
    using assms
    by (subst factoradic_digits.simps)
       (simp add: fact_sdiv_Suc int_Suc_pred sdiv_nonneg smod_mod_positive array_set_def
             del: of_nat_Suc fact_Suc)
  have "0 \<le> ?bn" by simp
  moreover have "k < length ?ds" by simp
  ultimately obtain ds' where
    r: "factoradic_digits (int k) (fact k) ?bn ?ds = Some (Inr ds')" and
    l: "length ds' = length ?ds" and
    d: "\<forall>i<length ?ds. ds' ! i =
            (if 1 \<le> i \<and> i \<le> k then Some (factoradic_digit ?bn k i) else ?ds ! i)"
    using factoradic_digits_closed [of ?bn k ?ds] by blast
  have "ds' = map (\<lambda>i. Some (factoradic_digit n (Suc k) i)) [0..<Suc (Suc k)]"
  proof (rule nth_equalityI)
    show "length ds' = length (map (\<lambda>i. Some (factoradic_digit n (Suc k) i)) [0..<Suc (Suc k)])"
      using l by simp
  next
    fix i assume "i < length ds'"
    then have i: "i < Suc (Suc k)" using l by simp
    consider "i = 0" | "1 \<le> i" "i < k" | "i = k" "1 \<le> k" | "i = Suc k"
      using i by linarith
    then have "ds' ! i = Some (factoradic_digit n (Suc k) i)"
    proof cases
      case 1
      then show ?thesis using d by (simp add: factoradic_digit_def)
    next
      case 2
      have "(fact (Suc i) :: int) dvd fact (Suc k)"
        using 2 by (intro fact_dvd) simp
      then have "?bn mod fact (Suc i) = n mod fact (Suc i)"
        by (rule mod_mod_cancel)
      moreover have "ds' ! i = Some (factoradic_digit ?bn k i)"
        using 2 d by simp
      ultimately show ?thesis using 2 by (simp add: factoradic_digit_def del: fact_Suc)
    next
      case 3
      then have "ds' ! i = Some (factoradic_digit ?bn k i)"
        using d by simp
      then show ?thesis using 3 by (simp add: factoradic_digit_def del: fact_Suc)
    next
      case 4
      then have "ds' ! i = ?ds ! Suc k" using d by simp
      also have "\<dots> = Some ?v"
        by (simp add: nth_append del: fact_Suc)
      finally show ?thesis using 4 by (simp add: factoradic_digit_def del: fact_Suc)
    qed
    then show "ds' ! i = map (\<lambda>i. Some (factoradic_digit n (Suc k) i)) [0..<Suc (Suc k)] ! i"
      using i by (simp only: nth_map_upt) simp
  qed
  then show ?thesis using step r Suc by simp
qed

lemma falling_product_fact: "(\<Prod>i<k. int k - int i) = fact k"
proof -
  have "(\<Prod>i<k. int k - int i) = int (\<Prod>i<k. k - i)"
    by (simp add: of_nat_diff)
  also have "(\<Prod>i<k. k - i) = (\<Prod>i=1..k. i)"
    by (rule prod.reindex_bij_witness [of _ "\<lambda>i. k - i" "\<lambda>i. k - i"]) auto
  also have "\<dots> = fact k"
    by (simp add: fact_prod)
  finally show ?thesis by simp
qed

lemma factorial_returns: "factorial (int k) = Some (downcast (fact k))"
  by (simp add: factorial_def permutation_returns falling_product_fact)

lemma val_downcast: "val (downcast p) = p"
  by (simp add: downcast_def)

lemma factoradic_explicit:
  assumes "0 \<le> n" "1 \<le> L"
  shows "factoradic n (int L) =
         Some (Inr (map (\<lambda>i. Some (factoradic_digit n L i)) [0..<Suc L]))"
  using assms
  by (simp add: factoradic_def factorial_returns val_downcast factoradic_digits_init
           del: upt_Suc)


lemma factoradic_minimal:
  assumes "0 \<le> n"
  shows "\<exists>L. factoradic n 0 =
              Some (Inr (map (\<lambda>i. Some (factoradic_digit n L i)) [0..<Suc L])) \<and>
             n < fact (Suc L) \<and> (L = 0 \<or> fact L \<le> n)"
proof -
  obtain m where m: "1 \<le> m" "factoradic_width 1 1 n = Some (int m, fact m)"
    "n \<le> fact m" "m = 1 \<or> fact (m - 1) < n"
    using factoradic_width_returns [of 1 n] by auto
  show ?thesis
  proof (cases "n < fact m")
    case True
    obtain L where L: "m = Suc L" using m(1) by (cases m) auto
    have "factoradic n 0 = factoradic_digits (int L) (fact L) n [Some 0]"
      using True m(2) unfolding L
      by (simp add: factoradic_def fact_sdiv_Suc int_Suc_pred del: of_nat_Suc fact_Suc)
    moreover have "L = 0 \<or> fact L \<le> n" using m(4) L by auto
    ultimately show ?thesis
      using True L factoradic_digits_init [OF assms, of L] by (intro exI [of _ L]) simp
  next
    case False
    then have eq: "n = fact m" using m(3) by simp
    have "factoradic n 0 = factoradic_digits (int m) (fact m) n [Some 0]"
      using False m(2) by (simp add: factoradic_def)
    moreover have "(fact m :: int) < fact (Suc m)"
      using m(1) by (simp del: of_nat_Suc) 
    ultimately show ?thesis
      using eq factoradic_digits_init [OF assms, of m] by (intro exI [of _ m]) simp
  qed
qed

lemma factoradic_returns:
  assumes "0 \<le> l"
  shows "\<exists>ds. factoradic n l = Some (Inr ds)"
proof (cases "l = 0")
  case True
  obtain m where m: "1 \<le> m" "factoradic_width 1 1 n = Some (int m, fact m)"
    using factoradic_width_returns [of 1 n] by auto
  obtain L where L: "m = Suc L" using m(1) by (cases m) auto
  show ?thesis
    using True m(2) factoradic_digits_returns [of m n "[Some 0]"]
      factoradic_digits_returns [of L n "[Some 0]"] unfolding L
    by (simp add: factoradic_def fact_sdiv_Suc int_Suc_pred del: of_nat_Suc fact_Suc)
next
  case False
  then obtain k where k: "l = int k" using assms by (metis nonneg_int_cases)
  show ?thesis
    using False factoradic_digits_returns [of k n "[Some 0]"] unfolding k
    by (simp add: factoradic_def factorial_returns val_downcast)
qed

lemma low_digits_sum:
  "1 \<le> L \<Longrightarrow> (\<Sum>i = 1..<L. (n mod fact (Suc i)) div fact i * fact i) = n mod (fact L :: int)"
proof (induction L rule: nat_induct_at_least)
  case base
  show ?case by simp
next
  case (Suc L)
  have "(fact L :: int) dvd fact (Suc L)"
    by (intro fact_dvd) simp
  then have "n mod fact (Suc L) mod fact L = n mod (fact L :: int)"
    by (rule mod_mod_cancel)
  then have "n mod fact L + (n mod fact (Suc L)) div fact L * fact L = n mod (fact (Suc L) :: int)"
    by (metis add.commute div_mult_mod_eq)
  then show ?case using Suc by (simp del: fact_Suc)
qed

lemma factoradic_digit_sum:
  assumes "1 \<le> L"
  shows "(\<Sum>i = 1..L. factoradic_digit n L i * fact i) = n"
proof -
  have "{1..L} = insert L {1..<L}" using assms by auto
  then have "(\<Sum>i = 1..L. factoradic_digit n L i * fact i) =
        factoradic_digit n L L * fact L + (\<Sum>i = 1..<L. factoradic_digit n L i * fact i)"
    by simp
  also have "(\<Sum>i = 1..<L. factoradic_digit n L i * fact i) =
        (\<Sum>i = 1..<L. (n mod fact (Suc i)) div fact i * fact i)"
    by (rule sum.cong) (auto simp: factoradic_digit_def)
  also have "\<dots> = n mod fact L"
    using assms by (rule low_digits_sum)
  also have "factoradic_digit n L L * fact L = n div fact L * fact L"
    using assms by (simp add: factoradic_digit_def)
  finally show ?thesis by simp
qed

lemma int_div_less_iff:
  fixes a b c :: int
  assumes "0 < b"
  shows "a div b < c \<longleftrightarrow> a < c * b"
proof
  assume "a div b < c"
  then have "(a div b + 1) * b \<le> c * b"
    using assms by (intro mult_right_mono) simp_all
  moreover have "a mod b < b" using assms by simp
  then have "a < a div b * b + b"
    using div_mult_mod_eq [of a b] by linarith
  then have "a < (a div b + 1) * b"
    by (simp add: algebra_simps)
  ultimately show "a < c * b" by simp
next
  assume lt: "a < c * b"
  show "a div b < c"
  proof (rule ccontr)
    assume "\<not> a div b < c"
    then have "c * b \<le> a div b * b"
      using assms by (intro mult_right_mono) simp_all
    moreover have "0 \<le> a mod b" using assms by simp
    then have "a div b * b \<le> a"
      using div_mult_mod_eq [of a b] by linarith
    ultimately show False using lt by simp
  qed
qed

lemma low_digit_bounds:
  shows "0 \<le> (n mod fact (Suc i)) div (fact i :: int)"
    and "(n mod fact (Suc i)) div (fact i :: int) \<le> int i"
proof -
  show "0 \<le> (n mod fact (Suc i)) div (fact i :: int)"
    by (simp add: pos_imp_zdiv_nonneg_iff del: fact_Suc)
  have "n mod fact (Suc i) < (fact (Suc i) :: int)"
    by (rule pos_mod_bound) simp
  then have "n mod fact (Suc i) < (int i + 1) * fact i"
    by (simp add: algebra_simps)
  then have "(n mod fact (Suc i)) div (fact i :: int) < int i + 1"
    by (intro int_div_less_iff [THEN iffD2]) simp_all
  then show "(n mod fact (Suc i)) div (fact i :: int) \<le> int i" by simp
qed

lemma top_digit_bound:
  "n div (fact L :: int) \<le> int L \<longleftrightarrow> n < fact (Suc L)"
proof -
  have "n div (fact L :: int) \<le> int L \<longleftrightarrow> n div (fact L :: int) < int L + 1"
    by linarith
  also have "\<dots> \<longleftrightarrow> n < (int L + 1) * fact L"
    by (rule int_div_less_iff) simp
  also have "(int L + 1) * fact L = (fact (Suc L) :: int)"
    by (simp add: algebra_simps)
  finally show ?thesis .
qed


lemma factoradic_digit_padding:
  assumes "0 \<le> n" "n < fact i" "1 \<le> i"
  shows "factoradic_digit n L i = 0"
proof -
  have "(fact i :: int) \<le> fact (Suc i)"
    by (intro fact_mono) simp
  then have "n < fact (Suc i)"
    using assms(2) by linarith
  then have "n mod fact (Suc i) = n"
    using assms(1) by (intro mod_pos_pos_trivial)
  moreover have "n div fact i = 0"
    using assms by (intro div_pos_pos_trivial) simp_all
  ultimately show ?thesis
    using assms(3) by (auto simp add: factoradic_digit_def simp del: fact_Suc)
qed

lemma factoradic_shape:
  assumes "0 \<le> n" "0 \<le> l"
  shows "\<exists>L. factoradic n l =
              Some (Inr (map Some (map (factoradic_digit n L) [0..<Suc L]))) \<and>
             (L = 0 \<longrightarrow> n = 0) \<and>
             (if l = 0 then n < fact (Suc L) \<and> (L = 0 \<or> fact L \<le> n) else L = nat l)"
proof (cases "l = 0")
  case True
  obtain L where L: "factoradic n 0 =
      Some (Inr (map (\<lambda>i. Some (factoradic_digit n L i)) [0..<Suc L]))"
      "n < fact (Suc L)" "L = 0 \<or> fact L \<le> n"
    using factoradic_minimal [OF assms(1)] by blast
  have "L = 0 \<longrightarrow> n = 0" using L(2) assms(1) by auto
  then show ?thesis
    using True L by (intro exI [of _ L]) (simp add: comp_def del: upt_Suc)
next
  case False
  then have l: "l = int (nat l)" "1 \<le> nat l" using assms(2) by simp_all
  have "factoradic n l = Some (Inr (map (\<lambda>i. Some (factoradic_digit n (nat l) i)) [0..<Suc (nat l)]))"
    using factoradic_explicit [OF assms(1) l(2)] l(1) by simp
  then show ?thesis
    using False l(2) assms(2) by (intro exI [of _ "nat l"]) (simp add: comp_def del: upt_Suc)
qed

text \<open>
  Claim C8, amended. For \<open>value \<ge> 0\<close> and \<open>digitCount \<ge> 0\<close>, \<open>factoradic\<close> returns an array
  \<open>d\<close> without holes, with \<open>d[0] = 0\<close> and \<open>value = \<Sum> d[i] * i!\<close> over the positions
  \<open>1..l\<close>. Every digit is non-negative, every digit below the top position is at
  most its position, and the top digit is at most \<open>l\<close> exactly when \<open>value < (l+1)!\<close>.
  Positions whose factorial exceeds the value hold 0. With \<open>digitCount = 0\<close> the width
  \<open>l\<close> is the least with \<open>value < (l+1)!\<close>; otherwise \<open>l = digitCount\<close>, and the top digit
  \<open>value div l!\<close> is taken to be at most \<open>MAX_SAFE_INTEGER\<close>, so that its conversion to a
  Number is exact.
\<close>

theorem factoradic_digit_sequence:
  assumes "0 \<le> n" "0 \<le> l" "l = 0 \<or> n div fact (nat l) \<le> MAX_SAFE_INTEGER"
  shows "\<exists>ds. factoradic n l = Some (Inr (map Some ds)) \<and> ds \<noteq> [] \<and> ds ! 0 = 0 \<and>
           n = (\<Sum>i = 1..<length ds. ds ! i * fact i) \<and>
           (\<forall>i. 1 \<le> i \<and> Suc i < length ds \<longrightarrow> 0 \<le> ds ! i \<and> ds ! i \<le> int i) \<and>
           0 \<le> last ds \<and> (last ds \<le> int (length ds - 1) \<longleftrightarrow> n < fact (length ds)) \<and>
           (\<forall>i. 1 \<le> i \<and> i < length ds \<and> n < fact i \<longrightarrow> ds ! i = 0) \<and>
           (if l = 0 then n < fact (length ds) \<and> (length ds = 1 \<or> fact (length ds - 1) \<le> n)
            else length ds = nat l + 1)"
proof -
  obtain L where L: "factoradic n l =
      Some (Inr (map Some (map (factoradic_digit n L) [0..<Suc L])))"
      "L = 0 \<longrightarrow> n = 0"
      "if l = 0 then n < fact (Suc L) \<and> (L = 0 \<or> fact L \<le> n) else L = nat l"
    using factoradic_shape [OF assms(1,2)] by blast
  define ds where "ds = map (factoradic_digit n L) [0..<Suc L]"
  have len: "length ds = Suc L" by (simp add: ds_def)
  have nth: "ds ! i = factoradic_digit n L i" if "i \<le> L" for i
    using that unfolding ds_def by (simp only: nth_map_upt) simp
  have "ds \<noteq> []" using len by auto
  moreover have "ds ! 0 = 0" by (simp add: nth factoradic_digit_def)
  moreover have "n = (\<Sum>i = 1..<length ds. ds ! i * fact i)"
  proof (cases "L = 0")
    case True
    then show ?thesis using L(2) len by simp
  next
    case False
    have "(\<Sum>i = 1..<length ds. ds ! i * fact i) = (\<Sum>i = 1..L. factoradic_digit n L i * fact i)"
      unfolding len by (rule sum.cong) (auto simp: nth)
    moreover have "(\<Sum>i = 1..L. factoradic_digit n L i * fact i) = n"
      using False by (intro factoradic_digit_sum) simp
    ultimately show ?thesis by simp
  qed
  moreover have "0 \<le> ds ! i \<and> ds ! i \<le> int i" if "1 \<le> i \<and> Suc i < length ds" for i
  proof -
    have "ds ! i = (n mod fact (Suc i)) div fact i"
      using that len by (simp add: nth factoradic_digit_def del: fact_Suc)
    then show ?thesis using low_digit_bounds [of n i] by simp
  qed
  moreover have last: "last ds = (if L = 0 then 0 else n div fact L)"
    using \<open>ds \<noteq> []\<close> len by (simp add: last_conv_nth nth factoradic_digit_def)
  have "0 \<le> last ds"
    using assms(1) by (simp add: last pos_imp_zdiv_nonneg_iff)
  moreover have "last ds \<le> int (length ds - 1) \<longleftrightarrow> n < fact (length ds)"
  proof (cases "L = 0")
    case True
    then show ?thesis using L(2) len last by simp
  next
    case False
    then show ?thesis using top_digit_bound [of n L] len last by simp
  qed
  moreover have "ds ! i = 0" if "1 \<le> i \<and> i < length ds \<and> n < fact i" for i
    using that len assms(1) by (simp add: nth factoradic_digit_padding)
  moreover have "if l = 0 then n < fact (length ds) \<and> (length ds = 1 \<or> fact (length ds - 1) \<le> n)
            else length ds = nat l + 1"
    using L(3) len by (simp split: if_splits)
  ultimately show ?thesis
    using L(1) unfolding ds_def [symmetric] by blast
qed

theorem factoradic_digit_sequence_witness:
  "(0::int) \<le> 463 \<and> (0::int) \<le> 5 \<and>
   factoradic 463 5 = Some (Inr (map Some [0, 1, 0, 1, 4, 3])) \<and>
   (\<exists>ds. factoradic 463 5 = Some (Inr (map Some ds)) \<and> ds \<noteq> [] \<and> ds ! 0 = 0 \<and>
           (463::int) = (\<Sum>i = 1..<length ds. ds ! i * fact i) \<and>
           (\<forall>i. 1 \<le> i \<and> Suc i < length ds \<longrightarrow> 0 \<le> ds ! i \<and> ds ! i \<le> int i) \<and>
           0 \<le> last ds \<and> (last ds \<le> int (length ds - 1) \<longleftrightarrow> (463::int) < fact (length ds)) \<and>
           (\<forall>i. 1 \<le> i \<and> i < length ds \<and> (463::int) < fact i \<longrightarrow> ds ! i = 0) \<and>
           length ds = 6)"
proof -
  have h: "(0::int) \<le> 463" "(0::int) \<le> 5"
    "(5::int) = 0 \<or> 463 div fact (nat 5) \<le> MAX_SAFE_INTEGER"
    by (simp_all add: MAX_SAFE_INTEGER_def eval_nat_numeral)
  have e: "factoradic 463 5 = Some (Inr (map Some [0, 1, 0, 1, 4, 3]))"
    by (simp add: factoradic_explicit [of 463 5, simplified] factoradic_digit_def
          eval_nat_numeral upt_rec [of 0] upt_rec [of "Suc _"])
  show ?thesis
    using factoradic_digit_sequence [OF h] h(1,2) e by simp
qed

text \<open>
  The claim as stated bounds every digit by its position. With an explicit width that
  is too small for the value the top digit takes the whole quotient:
  \<open>factoradic(100, 2)\<close> is \<open>[0, 0, 50]\<close>.
\<close>

theorem factoradic_top_digit_counterexample:
  "factoradic 100 2 = Some (Inr [Some 0, Some 0, Some 50]) \<and> \<not> (50::int) \<le> 2"
  by (simp add: factoradic_explicit [of 100 2, simplified] factoradic_digit_def
          eval_nat_numeral upt_rec [of 0] upt_rec [of "Suc _"])

section \<open>Permutation unranking\<close>

lemma splice1_in_range:
  "j < length source \<Longrightarrow>
   splice1 source (Some (int j)) = (Some (source ! j), take j source @ drop (Suc j) source)"
  by (simp add: splice1_def Let_def)

lemma nth_loop_select:
  assumes "int (length source) = i + 1" "0 \<le> offset" "offset \<le> i + 1"
    and "c = nat (i + 1 - offset)"
    and "\<And>m. nat offset \<le> m \<Longrightarrow> m < length source \<Longrightarrow>
           array_get digits (int m) = Some (int (d m)) \<and> d m \<le> m"
  shows "nth_loop digits offset i source result = result @ map Some (select d c source)"
  using assms
proof (induction c arbitrary: i source result)
  case 0
  then have "\<not> offset \<le> i" by simp
  then show ?case using 0 by simp
next
  case (Suc c)
  define m where "m = length source - 1"
  have i: "offset \<le> i" "i = int m" "m < length source" "length source = Suc m"
    using Suc.prems unfolding m_def by auto
  have dm: "array_get digits i = Some (int (d m))" "d m \<le> m"
    using Suc.prems(5) [of m] i Suc.prems(2) by auto
  let ?source = "take (d m) source @ drop (Suc (d m)) source"
  have sp: "splice1 source (array_get digits i) = (Some (source ! d m), ?source)"
    using dm i by (simp add: splice1_in_range)
  have len: "length ?source = m" using dm i by simp
  have "nth_loop digits offset (i - 1) ?source (result @ [Some (source ! d m)]) =
        (result @ [Some (source ! d m)]) @ map Some (select d c ?source)"
  proof (rule Suc.IH)
    show "int (length ?source) = i - 1 + 1" using len i by simp
    show "0 \<le> offset" by fact
    show "offset \<le> i - 1 + 1" using i by simp
    show "c = nat (i - 1 + 1 - offset)" using Suc.prems(4) by simp
    show "array_get digits (int k) = Some (int (d k)) \<and> d k \<le> k"
      if "nat offset \<le> k" "k < length ?source" for k
      using that len i Suc.prems(5) [of k] by simp
  qed
  moreover have "nth_loop digits offset i source result =
      nth_loop digits offset (i - 1) ?source (result @ [Some (source ! d m)])"
    using i(1) sp by (subst nth_loop.simps) simp
  ultimately show ?case
    by (simp add: m_def Let_def)
qed

lemma select_length: "length (select d c source) = c"
  by (induction c arbitrary: source) (simp_all add: Let_def)

lemma set_remove_index: "set (take j xs @ drop (Suc j) xs) \<subseteq> set xs"
  by (auto dest: in_set_takeD in_set_dropD)

lemma distinct_remove_index: "distinct xs \<Longrightarrow> distinct (take j xs @ drop (Suc j) xs)"
  by (metis distinct_drop distinct_take append_take_drop_id distinct_append
      set_drop_subset_set_drop[of j "Suc j" xs] disjoint_iff subsetD le_SucI order_refl)

lemma nth_notin_remove_index:
  "distinct xs \<Longrightarrow> j < length xs \<Longrightarrow> xs ! j \<notin> set (take j xs @ drop (Suc j) xs)"
  by (metis Cons_nth_drop_Suc append_take_drop_id distinct.simps(2) distinct_append
      disjoint_iff list.set_intros(1) set_append UnE)


lemma select_set:
  "c \<le> length source \<Longrightarrow> (\<And>m. m < length source \<Longrightarrow> d m \<le> m) \<Longrightarrow>
   set (select d c source) \<subseteq> set source"
proof (induction c arbitrary: source)
  case 0
  show ?case by simp
next
  case (Suc c)
  define j where "j = d (length source - 1)"
  have pos: "length source - 1 < length source" using Suc.prems(1) by simp
  have j: "j < length source" using Suc.prems(2) [OF pos] pos
    unfolding j_def by simp
  let ?source = "take j source @ drop (Suc j) source"
  have "set (select d c ?source) \<subseteq> set ?source"
    using Suc.prems j by (intro Suc.IH) simp_all
  then have "set (select d c ?source) \<subseteq> set source"
    using set_remove_index [of j source] by blast
  then show ?case using j unfolding j_def by (simp add: Let_def)
qed

lemma select_distinct:
  "distinct source \<Longrightarrow> c \<le> length source \<Longrightarrow> (\<And>m. m < length source \<Longrightarrow> d m \<le> m) \<Longrightarrow>
   distinct (select d c source)"
proof (induction c arbitrary: source)
  case 0
  show ?case by simp
next
  case (Suc c)
  define j where "j = d (length source - 1)"
  have pos: "length source - 1 < length source" using Suc.prems(2) by simp
  have j: "j < length source" using Suc.prems(3) [OF pos] pos
    unfolding j_def by simp
  let ?source = "take j source @ drop (Suc j) source"
  have len: "length ?source = length source - 1" using j by simp
  have "distinct (select d c ?source)"
    using Suc.prems j by (intro Suc.IH distinct_remove_index) simp_all
  moreover have "set (select d c ?source) \<subseteq> set ?source"
    using Suc.prems j by (intro select_set) simp_all
  then have "source ! j \<notin> set (select d c ?source)"
    using nth_notin_remove_index [OF Suc.prems(1) j] by blast
  ultimately show ?case unfolding j_def by (simp add: Let_def)
qed

lemma select_inj:
  assumes "distinct source" "c \<le> length source"
    and "\<And>m. m < length source \<Longrightarrow> d m \<le> m"
    and "\<And>m. m < length source \<Longrightarrow> d' m \<le> m"
    and "select d c source = select d' c source"
    and "length source - c \<le> m" "m < length source"
  shows "d m = d' m"
  using assms
proof (induction c arbitrary: source)
  case 0
  then show ?case by simp
next
  case (Suc c)
  define j where "j = d (length source - 1)"
  define j' where "j' = d' (length source - 1)"
  have pos: "length source - 1 < length source" using Suc.prems(2) by simp
  have j: "j < length source" "j' < length source"
    using Suc.prems(3) [OF pos] Suc.prems(4) [OF pos] pos
    unfolding j_def j'_def by simp_all
  let ?source = "take j source @ drop (Suc j) source"
  have eq: "source ! j = source ! j'"
      "select d c ?source = select d' c (take j' source @ drop (Suc j') source)"
    using Suc.prems(5) unfolding j_def j'_def by (simp_all add: Let_def)
  have jj: "j = j'"
    using eq(1) j Suc.prems(1) by (simp add: nth_eq_iff_index_eq)
  show ?case
  proof (cases "m = length source - 1")
    case True
    then show ?thesis using jj by (simp add: j_def j'_def)
  next
    case False
    have len: "length ?source = length source - 1" using j by simp
    show ?thesis
    proof (rule Suc.IH [of ?source])
      show "distinct ?source" using Suc.prems(1) by (rule distinct_remove_index)
      show "c \<le> length ?source" using Suc.prems(2) len by simp
      show "d k \<le> k" if "k < length ?source" for k using that len Suc.prems(3) by simp
      show "d' k \<le> k" if "k < length ?source" for k using that len Suc.prems(4) by simp
      show "select d c ?source = select d' c ?source" using eq(2) jj by simp
      show "length ?source - c \<le> m" using Suc.prems(6) len by simp
      show "m < length ?source" using False Suc.prems(7) len by simp
    qed
  qed
qed

lemma select_zero: "c \<le> length source \<Longrightarrow> select (\<lambda>_. 0) c source = take c source"
proof (induction c arbitrary: source)
  case 0
  show ?case by simp
next
  case (Suc c)
  then obtain x xs where "source = x # xs" by (cases source) auto
  then show ?case using Suc by simp
qed


lemma lehmer_digit_le: "lehmer_digit v m \<le> m"
  using low_digit_bounds [of v m] unfolding lehmer_digit_def by linarith

lemma int_lehmer_digit: "int (lehmer_digit v m) = (v mod fact (Suc m)) div fact m"
  using low_digit_bounds(1) [of v m] unfolding lehmer_digit_def by simp

lemma factoradic_digit_lehmer:
  "m < N \<Longrightarrow> factoradic_digit v N m = int (lehmer_digit v m)"
  by (simp add: int_lehmer_digit factoradic_digit_def)

lemma array_get_map_upt:
  "m < n \<Longrightarrow> array_get (map f [0..<n]) (int m) = f m"
  by (simp add: array_get_def)

lemma Permutation_nth_select:
  assumes "0 \<le> k" "k \<le> int (length seed)" "0 \<le> val n"
  shows "Permutation_nth \<lparr>p_seed = seed, p_size = k, p_length = len\<rparr> n =
         Some (Inr (map Some
           (select (lehmer_digit (val n * fact (length seed - nat k))) (nat k) seed)))"
proof -
  define N where "N = length seed"
  define off where "off = N - nat k"
  define v where "v = val n * fact off"
  have off: "int N - k = int off" using assms unfolding off_def N_def by simp
  have v: "0 \<le> v" using assms(3) unfolding v_def by simp
  have skip: "factorial (int off) = Some (downcast (fact off))"
    by (rule factorial_returns)
  show ?thesis
  proof (cases "N = 0")
    case True
    then have "k = 0" "seed = []" using assms unfolding N_def by simp_all
    moreover obtain ds where "factoradic (val n * 1) 0 = Some (Inr ds)"
      using factoradic_returns [of 0 "val n * 1"] by auto
    ultimately show ?thesis
      using factorial_returns [of 0]
      by (simp add: Permutation_nth_def val_downcast)
  next
    case False
    then have N1: "1 \<le> N" by simp
    let ?digits = "map (\<lambda>i. Some (factoradic_digit v N i)) [0..<Suc N]"
    have fd: "factoradic v (int N) = Some (Inr ?digits)"
      using v N1 by (rule factoradic_explicit)
    have "nth_loop ?digits (int off) (int N - 1) seed [] =
          [] @ map Some (select (lehmer_digit v) (nat k) seed)"
    proof (rule nth_loop_select)
      show "int (length seed) = int N - 1 + 1" by (simp add: N_def)
      show "0 \<le> int off" by simp
      show "int off \<le> int N - 1 + 1" unfolding off_def by simp
      show "nat k = nat (int N - 1 + 1 - int off)" using off by simp
      show "array_get ?digits (int m) = Some (int (lehmer_digit v m)) \<and> lehmer_digit v m \<le> m"
        if "m < length seed" for m
        using that unfolding N_def [symmetric]
        by (simp only: array_get_map_upt less_SucI factoradic_digit_lehmer lehmer_digit_le)
    qed
    then show ?thesis
      using fd skip off
      by (simp add: Permutation_nth_def val_downcast N_def [symmetric] v_def [symmetric]
          off_def [symmetric])
  qed
qed


lemma lehmer_digits_inj:
  assumes "0 \<le> v" "v < fact N" "fact off dvd v"
    and "0 \<le> w" "w < fact N" "fact off dvd w"
    and eq: "\<And>m. off \<le> m \<Longrightarrow> m < N \<Longrightarrow> lehmer_digit v m = lehmer_digit w m"
  shows "v = w"
proof (cases "N = 0")
  case True
  then show ?thesis using assms(1,2,4,5) by simp
next
  case False
  then have N1: "1 \<le> N" by simp
  have summand: "(v mod fact (Suc i)) div fact i * fact i = (w mod fact (Suc i)) div fact i * (fact i :: int)"
    if "i \<in> {1..<N}" for i
  proof (cases "off \<le> i")
    case True
    then have "lehmer_digit v i = lehmer_digit w i" using that eq by simp
    then have "(v mod fact (Suc i)) div fact i = (w mod fact (Suc i)) div (fact i :: int)"
      by (simp only: int_lehmer_digit [symmetric])
    then show ?thesis by simp
  next
    case False
    then have "(fact (Suc i) :: int) dvd fact off"
      by (intro fact_dvd) simp
    then have "(fact (Suc i) :: int) dvd v" "(fact (Suc i) :: int) dvd w"
      using assms(3,6) by (blast intro: dvd_trans)+
    then have "v mod fact (Suc i) = 0" "w mod fact (Suc i) = 0"
      by (simp_all only: mod_eq_0_iff_dvd)
    then show ?thesis by simp
  qed
  have "v = v mod fact N" using assms(1,2) by simp
  also have "\<dots> = (\<Sum>i = 1..<N. (v mod fact (Suc i)) div fact i * fact i)"
    using N1 by (rule low_digits_sum [symmetric])
  also have "\<dots> = (\<Sum>i = 1..<N. (w mod fact (Suc i)) div fact i * fact i)"
    by (rule sum.cong [OF refl summand])
  also have "\<dots> = w mod fact N"
    using N1 by (rule low_digits_sum)
  also have "\<dots> = w" using assms(4,5) by simp
  finally show ?thesis .
qed

lemma card_selections:
  assumes "distinct seed" "k \<le> length seed"
  shows "int (card {xs. length xs = k \<and> distinct xs \<and> set xs \<subseteq> set seed}) =
         (\<Prod>i<k. int (length seed) - int i)"
proof -
  define N where "N = length seed"
  have cN: "card (set seed) = N" using assms(1) by (simp add: distinct_card N_def)
  have "card {xs. length xs = k \<and> distinct xs \<and> set xs \<subseteq> set seed} = \<Prod>{N - k + 1 .. N}"
    using card_lists_distinct_length_eq [of "set seed" k] assms(2) cN by (simp add: N_def)
  also have "\<Prod>{N - k + 1 .. N} = (\<Prod>i<k. N - i)"
    using assms(2) unfolding N_def [symmetric]
    by (intro prod.reindex_bij_witness [of _ "\<lambda>i. N - i" "\<lambda>i. N - i"]) auto
  also have "int \<dots> = (\<Prod>i<k. int N - int i)"
    using assms(2) unfolding N_def [symmetric] by (simp add: of_nat_diff)
  finally show ?thesis unfolding N_def .
qed


lemma falling_product_times_fact:
  "k \<le> N \<Longrightarrow> (\<Prod>i<k. int N - int i) * fact (N - k) = fact N"
proof (induction k)
  case 0
  show ?case by simp
next
  case (Suc k)
  then have "N - k = Suc (N - Suc k)" by simp
  then have "(fact (N - k) :: int) = (int N - int k) * fact (N - Suc k)"
    using Suc.prems by (metis fact_Suc of_nat_diff Suc_leD)
  then show ?case using Suc by (simp add: mult.assoc)
qed

lemma Permutation_new_returns:
  "Permutation_new (array seed) size' =
     Some (Inr \<lparr>p_seed = seed,
                p_size = (if 0 < size' \<and> size' \<le> int (length seed) then size'
                          else int (length seed)),
                p_length = downcast (\<Prod>i<nat (if 0 < size' \<and> size' \<le> int (length seed) then size'
                          else int (length seed)). int (length seed) - int i)\<rparr>)"
  by (simp add: Permutation_new_def array_def permutation_returns BI_is_Number_def Let_def)

text \<open>
  What holds for an array seed of pairwise distinct elements: the constructor returns an
  object whose \<open>nth\<close>, on the ranks \<open>0 \<le> r < length\<close>, is a bijection onto the ordered
  selections of \<open>size\<close> distinct seed elements: it is injective there and every
  selection is produced exactly once. \<open>nth(0)\<close> is the first \<open>size\<close> elements of the
  seed in their order. The ranks are taken as BigInts; a Number rank gives what the
  BigInt of the same value gives.
\<close>

lemma Permutation_enumerates_selections:
  assumes "distinct seed"
  shows "\<exists>P. Permutation_new (array seed) size' = Some (Inr P) \<and> p_seed P = seed \<and>
           p_size P = (if 0 < size' \<and> size' \<le> int (length seed) then size'
                       else int (length seed)) \<and>
           (\<forall>n. Permutation_nth P n = Permutation_nth P (Big (val n))) \<and>
           bij_betw (\<lambda>r. Permutation_nth P (Big r)) {0..<val (p_length P)}
             ((\<lambda>xs. Some (Inr (map Some xs))) `
                {xs. length xs = nat (p_size P) \<and> distinct xs \<and> set xs \<subseteq> set seed}) \<and>
           Permutation_nth P (Num 0) = Some (Inr (map Some (take (nat (p_size P)) seed)))"
proof -
  define N where "N = length seed"
  define k where "k = (if 0 < size' \<and> size' \<le> int N then size' else int N)"
  define c where "c = nat k"
  define L where "L = (\<Prod>i<c. int N - int i)"
  define P where "P = \<lparr>p_seed = seed, p_size = k, p_length = downcast L\<rparr>"
  define S where "S = {xs. length xs = c \<and> distinct xs \<and> set xs \<subseteq> set seed}"
  define f where "f r = select (lehmer_digit (r * fact (N - c))) c seed" for r
  define g :: "'a list \<Rightarrow> (error + 'a option list) option"
    where "g xs = Some (Inr (map Some xs))" for xs
  have k: "0 \<le> k" "k \<le> int N" "k = int c" "c \<le> N"
    unfolding k_def c_def by auto
  have new: "Permutation_new (array seed) size' = Some (Inr P)"
    unfolding P_def L_def c_def k_def N_def by (rule Permutation_new_returns)
  have nth: "Permutation_nth P (Num r) = g (f r)" if "0 \<le> r" for r
  proof -
    have "Permutation_nth P (Num r) = Some (Inr (map Some
           (select (lehmer_digit (val (Num r) * fact (length seed - nat k))) (nat k) seed)))"
      unfolding P_def using that k(1,2)
      by (intro Permutation_nth_select) (simp_all add: N_def)
    then show ?thesis
      by (simp add: f_def g_def c_def N_def)
  qed
  have cardS: "int (card S) = L"
    unfolding S_def L_def N_def using assms k(4) by (intro card_selections) (simp_all add: N_def)
  have LN: "L * fact (N - c) = fact N"
    unfolding L_def using k(4) by (rule falling_product_times_fact)
  have Lpos: "0 < L"
  proof (rule ccontr)
    assume "\<not> 0 < L"
    then have "L * fact (N - c) \<le> 0" by (simp add: mult_le_0_iff)
    moreover have "(0::int) < fact N" by simp
    ultimately show False using LN by linarith
  qed
  have finS: "finite S"
    using cardS Lpos by (intro card_ge_0_finite) simp
  have bound: "lehmer_digit v m \<le> m" for v m by (rule lehmer_digit_le)
  have into: "f r \<in> S" for r
    unfolding f_def S_def using assms k(4)
    by (simp add: select_length select_distinct select_set bound N_def)
  have inj: "inj_on f {0..<L}"
  proof (rule inj_onI)
    fix r r' assume r: "r \<in> {0..<L}" "r' \<in> {0..<L}" and eq: "f r = f r'"
    have lt: "x * fact (N - c) < fact N" if "x < L" for x
    proof -
      have "x * fact (N - c) < L * fact (N - c)"
        using that by (intro mult_strict_right_mono) simp_all
      then show ?thesis using LN by simp
    qed
    have "r * fact (N - c) = r' * fact (N - c)"
    proof (rule lehmer_digits_inj [where N = N and off = "N - c"])
      show "0 \<le> r * fact (N - c)" "0 \<le> r' * fact (N - c)" using r by simp_all
      show "r * fact (N - c) < fact N" "r' * fact (N - c) < fact N" using r lt by simp_all
      show "fact (N - c) dvd r * fact (N - c)" "fact (N - c) dvd r' * fact (N - c)" by simp_all
      show "lehmer_digit (r * fact (N - c)) m = lehmer_digit (r' * fact (N - c)) m"
        if "N - c \<le> m" "m < N" for m
        using assms k(4) eq that unfolding f_def
        by (intro select_inj [where source = seed and c = c]) (simp_all add: bound N_def)
    qed
    then show "r = r'" by simp
  qed
  have "f ` {0..<L} = S"
  proof (rule card_subset_eq [OF finS])
    show "f ` {0..<L} \<subseteq> S" using into by blast
    have "card (f ` {0..<L}) = card {0..<L}" using inj by (rule card_image)
    then show "card (f ` {0..<L}) = card S" using cardS Lpos by simp
  qed
  then have "bij_betw f {0..<L} S"
    using inj by (simp add: bij_betw_def)
  moreover have "inj g" by (rule injI) (simp add: g_def inj_Some)
  then have "bij_betw g S (g ` S)"
    by (intro bij_betw_imageI inj_on_subset [of g UNIV S]) simp_all
  ultimately have "bij_betw (g \<circ> f) {0..<L} (g ` S)"
    by (rule bij_betw_trans)
  then have bij: "bij_betw (\<lambda>r. Permutation_nth P (Num r)) {0..<L} (g ` S)"
    by (rule bij_betw_cong [THEN iffD2, rotated]) (simp add: nth)
  have zero: "Permutation_nth P (Num 0) = Some (Inr (map Some (take c seed)))"
  proof -
    have "lehmer_digit (0 * fact (N - c)) = (\<lambda>_. 0)"
      by (rule ext) (simp add: lehmer_digit_def)
    then have "f 0 = take c seed"
      unfolding f_def using k(4) by (simp add: select_zero N_def)
    then show ?thesis using nth [of 0] by (simp add: g_def)
  qed
  have big: "Permutation_nth P (Big r) = Permutation_nth P (Num r)" for r
    unfolding Permutation_nth_def val.simps by (rule refl)
  have rep: "Permutation_nth P n = Permutation_nth P (Big (val n))" for n
    by (cases n) (simp_all add: big)
  have bij_big: "bij_betw (\<lambda>r. Permutation_nth P (Big r)) {0..<L} (g ` S)"
    using bij by (simp add: big)
  have fields: "p_seed P = seed" "p_size P = k" "val (p_length P) = L"
    by (simp_all add: P_def val_downcast)
  show ?thesis
    using new fields rep bij_big zero
    unfolding g_def [abs_def] S_def c_def k_def N_def by (intro exI [of _ P]) simp
qed


lemma Permutation_enumerates_selections_instance:
  "distinct [1::nat, 2, 3] \<and>
   (\<exists>P. Permutation_new (array [1::nat, 2, 3]) 2 = Some (Inr P) \<and> p_size P = 2 \<and>
      p_length P = Num 6 \<and>
      bij_betw (\<lambda>r. Permutation_nth P (Big r)) {0..<6}
        ((\<lambda>xs. Some (Inr (map Some xs))) `
           {xs. length xs = 2 \<and> distinct xs \<and> set xs \<subseteq> {1, 2, 3}}) \<and>
      Permutation_nth P (Num 0) = Some (Inr [Some 1, Some 2]))"
proof -
  have d: "distinct [1::nat, 2, 3]" by simp
  have n: "Permutation_new (array [1::nat, 2, 3]) 2 =
      Some (Inr \<lparr>p_seed = [1, 2, 3], p_size = 2, p_length = Num 6\<rparr>)"
    by (simp add: Permutation_new_returns eval_nat_numeral downcast_def MAX_SAFE_INTEGER_def)
  show ?thesis
    using Permutation_enumerates_selections [OF d, of 2] d unfolding n by simp
qed

text \<open>
  Claim C1 (the code departs from it). The seed is the string of the two code points
  U+1F600 and U+0061: its elements, here their code points 128512 and 97, are distinct,
  and its \<open>length\<close> property is 3, the number of UTF-16 code units. The constructor takes
  the size 2 from the copy and computes \<open>length = permutation(3, 2) = 6\<close> from the
  argument's \<open>length\<close>. Over the ranks 0 to 5, \<open>nth\<close> gives each of the two orderings three
  times: it is not injective on \<open>[0, length)\<close>, and no selection is produced exactly once.
\<close>

theorem Permutation_string_seed_repeats:
  "distinct [128512::int, 97] \<and>
   Permutation_new \<lparr>it_elements = [128512::int, 97], it_length = Some 3\<rparr> 0 =
     Some (Inr \<lparr>p_seed = [128512, 97], p_size = 2, p_length = Num 6\<rparr>) \<and>
   map (Permutation_nth \<lparr>p_seed = [128512::int, 97], p_size = 2, p_length = Num 6\<rparr>)
     [Num 0, Num 1, Num 2, Num 3, Num 4, Num 5] =
     [Some (Inr [Some 128512, Some 97]), Some (Inr [Some 97, Some 128512]),
      Some (Inr [Some 128512, Some 97]), Some (Inr [Some 97, Some 128512]),
      Some (Inr [Some 128512, Some 97]), Some (Inr [Some 97, Some 128512])]"
  by code_simp

section \<open>Range checks of nth and of the constructors\<close>

lemma shr32_small:
  assumes "0 \<le> n" "n < 2 ^ 31"
  shows "shr32 n 1 = n div 2"
proof -
  have "sint (word_of_int n :: 32 word) = n"
    using assms by (simp add: sint_sbintrunc' signed_take_bit_int_eq_self)
  then show ?thesis
    by (simp add: shr32_def ToInt32_def sint_signed_drop_bit_eq drop_bit_eq_div)
qed

lemma and_neg_nonzero:
  fixes p :: int
  shows "p \<noteq> 0 \<Longrightarrow> p AND - p \<noteq> 0"
proof (induction "nat \<bar>p\<bar>" arbitrary: p rule: less_induct)
  case less
  show ?case
  proof (cases "even p")
    case False
    then have "odd (p AND - p)" by (simp add: even_and_iff)
    then show ?thesis by auto
  next
    case True
    define q where "q = p div 2"
    have p: "p = 2 * q" using True by (simp add: q_def)
    have "q \<noteq> 0" using less.prems p by simp
    moreover have "nat \<bar>q\<bar> < nat \<bar>p\<bar>" using \<open>q \<noteq> 0\<close> p by simp
    ultimately have "q AND - q \<noteq> 0" by (rule less.hyps [rotated])
    moreover have "- (2 * q) div 2 = - q"
      by (metis mult_minus_right nonzero_mult_div_cancel_left zero_neq_numeral)
    then have "p AND - p = 2 * (q AND - q)"
      unfolding p by (subst and_int_rec) simp
    ultimately show ?thesis by simp
  qed
qed


lemma somes_replicate: "[v. Some v \<leftarrow> replicate k (Some b)] = replicate k b"
  by (induction k) simp_all

lemma foldl_mult_replicate: "foldl (\<lambda>a v. a * v) x (replicate k b) = x * b ^ k" for x b :: int
  by (induction k arbitrary: x) (simp_all add: mult.assoc)

lemma reduce_fill:
  "reduce (\<lambda>a v. a * v) (fill (replicate k None) b) =
     (if k = 0 then Inl TypeError else Inr (b ^ k))" for b :: int
proof (cases k)
  case 0
  then show ?thesis by (simp add: reduce_def fill_def)
next
  case (Suc j)
  then show ?thesis
    by (simp add: reduce_def fill_def somes_replicate foldl_mult_replicate)
qed

lemma BaseN_new_eq:
  "BaseN_new seed size' =
     (if size' < 0 \<or> 2 ^ 32 \<le> size' then Inl RangeError
      else if size' = 0 then Inl TypeError
      else Inr \<lparr>b_seed = seed, b_size = size', b_base = int (length seed),
                b_length = downcast (int (length seed) ^ nat size')\<rparr>)"
  by (simp add: BaseN_new_def Array_def reduce_fill Let_def)

lemma BaseN_loop_returns:
  "base \<noteq> 0 \<Longrightarrow> \<exists>xs. BaseN_loop seed size' big base i n result = Inr xs"
proof (induction seed size' big base i n result rule: BaseN_loop.induct)
  case (1 seed size' big base i n result)
  show ?case
  proof (cases "i < size'")
    case True
    then show ?thesis
      using 1 by (subst BaseN_loop.simps) (simp add: Let_def)
  next
    case False
    then show ?thesis by (subst BaseN_loop.simps) simp
  qed
qed

lemma BaseN_nth_range:
  assumes "BaseN_new seed size' = Inr B"
  shows "(BaseN_nth B n = Inl RangeError \<longleftrightarrow> val n < 0 \<or> val (b_length B) \<le> val n) \<and>
         (0 \<le> val n \<and> val n < val (b_length B) \<longrightarrow> (\<exists>xs. BaseN_nth B n = Inr xs))"
proof -
  have s: "0 < size'" and B: "B = \<lparr>b_seed = seed, b_size = size', b_base = int (length seed),
                b_length = downcast (int (length seed) ^ nat size')\<rparr>"
    using assms unfolding BaseN_new_eq by (auto split: if_splits)
  have ret: "\<exists>xs. BaseN_nth B n = Inr xs" if "0 \<le> val n" "val n < val (b_length B)"
  proof -
    have "val (b_length B) = int (length seed) ^ nat size'"
      by (simp add: B val_downcast)
    then have "0 < int (length seed) ^ nat size'"
      using that by linarith
    then have "int (length seed) \<noteq> 0"
      using s by (cases "length seed = 0") (simp_all add: power_0_left)
    then obtain xs where
      "BaseN_loop seed size' (is_bigint n) (int (length seed)) 0 (val n) [] = Inr xs"
      using BaseN_loop_returns by blast
    then show ?thesis using that by (simp add: BaseN_nth_def B)
  qed
  have "BaseN_nth B n = Inl RangeError \<longleftrightarrow> val n < 0 \<or> val (b_length B) \<le> val n"
  proof
    assume e: "BaseN_nth B n = Inl RangeError"
    show "val n < 0 \<or> val (b_length B) \<le> val n"
    proof (rule ccontr)
      assume "\<not> (val n < 0 \<or> val (b_length B) \<le> val n)"
      then obtain xs where "BaseN_nth B n = Inr xs" using ret by force
      then show False using e by simp
    qed
  next
    assume "val n < 0 \<or> val (b_length B) \<le> val n"
    then show "BaseN_nth B n = Inl RangeError" by (auto simp: BaseN_nth_def)
  qed
  then show ?thesis using ret by blast
qed


lemma foldl_lengths:
  "foldl (\<lambda>a v. a * int (length v)) x seed = x * (\<Prod>v\<leftarrow>seed. int (length v))"
  by (induction seed arbitrary: x) (simp_all add: mult.assoc)

lemma CartesianProduct_new_eq:
  "CartesianProduct_new args =
     \<lparr>cp_seed = args, cp_size = int (length args),
      cp_length = downcast (\<Prod>v\<leftarrow>args. int (length v))\<rparr>"
  by (simp add: CartesianProduct_new_def foldl_lengths Let_def)

lemma prod_lengths_pos:
  "0 < (\<Prod>v\<leftarrow>seed. int (length v)) \<Longrightarrow> v \<in> set seed \<Longrightarrow> v \<noteq> []"
  by (induction seed) (auto simp: zero_less_mult_iff)

lemma CartesianProduct_loop_returns:
  assumes "0 \<le> i" "size' = int (length seed)" "\<And>v. v \<in> set seed \<Longrightarrow> v \<noteq> []"
  shows "\<exists>xs. CartesianProduct_loop seed size' big i n result = Inr xs"
  using assms
proof (induction seed size' big i n result rule: CartesianProduct_loop.induct)
  case (1 seed size' big i n result)
  show ?case
  proof (cases "i < size'")
    case True
    then have el: "element seed i = Some (seed ! nat i)" "seed ! nat i \<in> set seed"
      using "1.prems"(1,2) by (simp_all add: element_def)
    then have ne: "int (length (seed ! nat i)) \<noteq> 0"
      using "1.prems"(3) by simp
    have "\<exists>xs. CartesianProduct_loop seed size' big (i + 1)
            ((n - n smod int (length (seed ! nat i))) sdiv int (length (seed ! nat i)))
            (result @ [element (seed ! nat i) (n smod int (length (seed ! nat i)))]) = Inr xs"
      by (rule "1.IH" [OF True el(1) refl ne refl]) (use "1.prems" in simp_all)
    then show ?thesis
      using True el(1) ne by (subst CartesianProduct_loop.simps) (simp add: Let_def)
  next
    case False
    then show ?thesis by (subst CartesianProduct_loop.simps) simp
  qed
qed

lemma CartesianProduct_nth_range:
  "(CartesianProduct_nth (CartesianProduct_new args) n = Inl RangeError \<longleftrightarrow>
      val n < 0 \<or> val (cp_length (CartesianProduct_new args)) \<le> val n) \<and>
   (0 \<le> val n \<and> val n < val (cp_length (CartesianProduct_new args)) \<longrightarrow>
      (\<exists>xs. CartesianProduct_nth (CartesianProduct_new args) n = Inr xs))"
proof -
  define C where "C = CartesianProduct_new args"
  have len: "val (cp_length C) = (\<Prod>v\<leftarrow>args. int (length v))"
    and seed: "cp_seed C = args" "cp_size C = int (length args)"
    by (simp_all add: C_def CartesianProduct_new_eq val_downcast)
  have ret: "\<exists>xs. CartesianProduct_nth C n = Inr xs" if "0 \<le> val n" "val n < val (cp_length C)"
  proof -
    have "0 < (\<Prod>v\<leftarrow>args. int (length v))" using that len by linarith
    then have "v \<noteq> []" if "v \<in> set args" for v
      using that by (rule prod_lengths_pos)
    then obtain xs where
      "CartesianProduct_loop args (int (length args)) (is_bigint n) 0 (val n) [] = Inr xs"
      using CartesianProduct_loop_returns [of 0 "int (length args)" args] by blast
    then show ?thesis using that by (simp add: CartesianProduct_nth_def seed)
  qed
  have "CartesianProduct_nth C n = Inl RangeError \<longleftrightarrow> val n < 0 \<or> val (cp_length C) \<le> val n"
  proof
    assume e: "CartesianProduct_nth C n = Inl RangeError"
    show "val n < 0 \<or> val (cp_length C) \<le> val n"
    proof (rule ccontr)
      assume "\<not> (val n < 0 \<or> val (cp_length C) \<le> val n)"
      then obtain xs where "CartesianProduct_nth C n = Inr xs" using ret by force
      then show False using e by simp
    qed
  next
    assume "val n < 0 \<or> val (cp_length C) \<le> val n"
    then show "CartesianProduct_nth C n = Inl RangeError" by (auto simp: CartesianProduct_nth_def)
  qed
  then show ?thesis using ret unfolding C_def by blast
qed

lemma PowerSet_loop_big_returns:
  "0 \<le> n \<Longrightarrow> \<exists>xs. PowerSet_loop seed True i n result = Some xs"
proof (induction "nat n" arbitrary: n i result rule: less_induct)
  case less
  show ?case
  proof (cases "n = 0")
    case True
    then show ?thesis by (subst PowerSet_loop.simps) simp
  next
    case False
    then have "nat (n div 2) < nat n" "0 \<le> n div 2" using less.prems by simp_all
    then have "\<exists>xs. PowerSet_loop seed True (i + 1) (n div 2) r = Some xs" for r
      using less.hyps by blast
    then show ?thesis
      using False by (subst PowerSet_loop.simps) (simp add: drop_bit_eq_div)
  qed
qed

lemma PowerSet_loop_number_returns:
  "0 \<le> n \<Longrightarrow> n < 2 ^ 31 \<Longrightarrow> \<exists>xs. PowerSet_loop seed False i n result = Some xs"
proof (induction "nat n" arbitrary: n i result rule: less_induct)
  case less
  show ?case
  proof (cases "n = 0")
    case True
    then show ?thesis by (subst PowerSet_loop.simps) simp
  next
    case False
    then have "nat (n div 2) < nat n" "0 \<le> n div 2" "n div 2 < 2 ^ 31"
      using less.prems by simp_all
    then have "\<exists>xs. PowerSet_loop seed False (i + 1) (n div 2) r = Some xs" for r
      using less.hyps by blast
    then show ?thesis
      using False less.prems shr32_small [of n]
      by (subst PowerSet_loop.simps) simp
  qed
qed

lemma PowerSet_nth_range:
  "(PowerSet_nth \<sigma> S n = Some (Inl RangeError) \<longleftrightarrow> val n < 0 \<or> val (ps_length S) \<le> val n) \<and>
   (0 \<le> val n \<and> val n < val (ps_length S) \<and> (is_bigint n \<or> val n < 2 ^ 31) \<longrightarrow>
      (\<exists>xs. PowerSet_nth \<sigma> S n = Some (Inr xs)))"
proof -
  have "PowerSet_nth \<sigma> S n \<noteq> Some (Inl RangeError)"
    if "\<not> (val n < 0 \<or> val (ps_length S) \<le> val n)"
    using that by (auto simp: PowerSet_nth_def)
  moreover have "PowerSet_nth \<sigma> S n = Some (Inl RangeError)"
    if "val n < 0 \<or> val (ps_length S) \<le> val n"
    using that by (auto simp: PowerSet_nth_def)
  moreover have "\<exists>xs. PowerSet_nth \<sigma> S n = Some (Inr xs)"
    if "0 \<le> val n" "val n < val (ps_length S)" "is_bigint n \<or> val n < 2 ^ 31"
  proof (cases n)
    case (Big b)
    then have "0 \<le> b" using that(1) by simp
    then obtain xs where "PowerSet_loop (\<sigma> (ps_seed S)) True 0 b [] = Some xs"
      using PowerSet_loop_big_returns by blast
    then show ?thesis using that Big by (simp add: PowerSet_nth_def)
  next
    case (Num b)
    then have "0 \<le> b" "b < 2 ^ 31" using that(1,3) by simp_all
    then obtain xs where "PowerSet_loop (\<sigma> (ps_seed S)) False 0 b [] = Some xs"
      using PowerSet_loop_number_returns by blast
    then show ?thesis using that Num by (simp add: PowerSet_nth_def)
  qed
  ultimately show ?thesis by blast
qed


lemma Permutation_nth_returns:
  assumes "0 \<le> p_size P" "p_size P \<le> int (length (p_seed P))"
  shows "\<exists>xs. Permutation_nth P n = Some (Inr xs)"
proof -
  define off where "off = nat (int (length (p_seed P)) - p_size P)"
  have off: "int (length (p_seed P)) - p_size P = int off"
    using assms by (simp add: off_def)
  obtain ds where "factoradic (val n * fact off) (int (length (p_seed P))) = Some (Inr ds)"
    using factoradic_returns [of "int (length (p_seed P))"] by auto
  then show ?thesis
    by (simp add: Permutation_nth_def off factorial_returns val_downcast)
qed

lemma Permutation_new_size:
  assumes "Permutation_new seed size' = Some (Inr P)"
  shows "p_seed P = it_elements seed" "0 \<le> p_size P"
    "p_size P \<le> int (length (it_elements seed))"
  using assms
  by (auto simp: Permutation_new_def Let_def split: option.splits if_splits)

lemma findIndex_returns: "\<exists>m. findIndex n = Inr m"
proof (cases n)
  case (Num a)
  then show ?thesis by (simp add: Let_def)
next
  case (Big a)
  show ?thesis
  proof (cases "a \<le> 2")
    case True
    then show ?thesis using Big by simp
  next
    case False
    then have "a - 1 \<noteq> 0" by simp
    then have "(a - 1) AND - (a - 1) \<noteq> 0" by (rule and_neg_nonzero)
    then show ?thesis using Big False by (simp add: Let_def)
  qed
qed

lemma Combination_nth_returns:
  assumes "Combination_new seed size' = Some (Inr C)"
  shows "\<exists>xs. Combination_nth C n = Some (Inr xs)"
proof -
  obtain P where P: "Permutation_new (array (it_elements seed)) size' = Some (Inr P)"
      "c_perm C = P"
    using assms
    by (auto simp: Combination_new_def split: option.splits sum.splits)
  obtain m where m: "findIndex n = Inr m" using findIndex_returns by blast
  have "\<exists>xs. Permutation_nth P m = Some (Inr xs)"
    using Permutation_new_size [OF P(1)] by (intro Permutation_nth_returns) simp_all
  then show ?thesis using m P(2) by (simp add: Combination_nth_def)
qed

text \<open>
  What holds of the range checks. \<open>BaseN\<close>, \<open>PowerSet\<close> and \<open>CartesianProduct\<close> raise a
  RangeError from \<open>nth(rank)\<close> exactly when \<open>rank < 0\<close> or \<open>rank \<ge> length\<close>, and return a
  sequence for a rank within \<open>[0, length)\<close> (for \<open>PowerSet\<close>: a BigInt rank, or a Number
  rank below \<open>2^31\<close>). \<open>Permutation\<close> and \<open>Combination\<close> have no range check: \<open>nth\<close>
  returns a sequence for every integer rank.
\<close>

lemma nth_range_errors:
  assumes "BaseN_new bseed bsize = Inr B"
    and "Permutation_new pseed psize = Some (Inr P)"
    and "Combination_new cseed csize = Some (Inr C)"
  shows "(BaseN_nth B n = Inl RangeError \<longleftrightarrow> val n < 0 \<or> val (b_length B) \<le> val n) \<and>
         (0 \<le> val n \<and> val n < val (b_length B) \<longrightarrow> (\<exists>xs. BaseN_nth B n = Inr xs)) \<and>
         (PowerSet_nth \<sigma>' (PowerSet_new \<sigma> a) n = Some (Inl RangeError) \<longleftrightarrow>
            val n < 0 \<or> val (ps_length (PowerSet_new \<sigma> a)) \<le> val n) \<and>
         (0 \<le> val n \<and> val n < val (ps_length (PowerSet_new \<sigma> a)) \<and>
            (is_bigint n \<or> val n < 2 ^ 31) \<longrightarrow>
            (\<exists>xs. PowerSet_nth \<sigma>' (PowerSet_new \<sigma> a) n = Some (Inr xs))) \<and>
         (CartesianProduct_nth (CartesianProduct_new args) n = Inl RangeError \<longleftrightarrow>
            val n < 0 \<or> val (cp_length (CartesianProduct_new args)) \<le> val n) \<and>
         (0 \<le> val n \<and> val n < val (cp_length (CartesianProduct_new args)) \<longrightarrow>
            (\<exists>xs. CartesianProduct_nth (CartesianProduct_new args) n = Inr xs)) \<and>
         (\<exists>xs. Permutation_nth P n = Some (Inr xs)) \<and>
         (\<exists>xs. Combination_nth C n = Some (Inr xs))"
proof -
  have "\<exists>xs. Permutation_nth P n = Some (Inr xs)"
    using Permutation_new_size [OF assms(2)] by (intro Permutation_nth_returns) simp_all
  moreover have "\<exists>xs. Combination_nth C n = Some (Inr xs)"
    using assms(3) by (rule Combination_nth_returns)
  ultimately show ?thesis
    using BaseN_nth_range [OF assms(1), of n] PowerSet_nth_range [of \<sigma>' "PowerSet_new \<sigma> a" n]
      CartesianProduct_nth_range [of args n]
    by blast
qed

lemma nth_range_errors_instance:
  "BaseN_new [1::int, 2] 3 = Inr \<lparr>b_seed = [1, 2], b_size = 3, b_base = 2, b_length = Num 8\<rparr> \<and>
   Permutation_new (array [1::int, 2, 3]) 0 =
     Some (Inr \<lparr>p_seed = [1, 2, 3], p_size = 3, p_length = Num 6\<rparr>) \<and>
   Combination_new (array [1::int, 2, 3, 4]) 2 =
     Some (Inr \<lparr>c_perm = \<lparr>p_seed = [1, 2, 3, 4], p_size = 2, p_length = Num 12\<rparr>,
                c_size = 2, c_length = Num 6\<rparr>) \<and>
   BaseN_nth \<lparr>b_seed = [1::int, 2], b_size = 3, b_base = 2, b_length = Num 8\<rparr> (Num 1)
     \<noteq> Inl RangeError \<and>
   (\<exists>xs. BaseN_nth \<lparr>b_seed = [1::int, 2], b_size = 3, b_base = 2, b_length = Num 8\<rparr> (Num 1)
      = Inr xs) \<and>
   PowerSet_nth (\<lambda>_. [1::int, 2]) (PowerSet_new (\<lambda>_. [1::int, 2]) 0) (Num 1)
     \<noteq> Some (Inl RangeError) \<and>
   (\<exists>xs. PowerSet_nth (\<lambda>_. [1::int, 2]) (PowerSet_new (\<lambda>_. [1::int, 2]) 0) (Num 1)
      = Some (Inr xs)) \<and>
   CartesianProduct_nth (CartesianProduct_new [[1::int, 2], [3, 4]]) (Num 1) \<noteq> Inl RangeError \<and>
   (\<exists>xs. CartesianProduct_nth (CartesianProduct_new [[1::int, 2], [3, 4]]) (Num 1) = Inr xs) \<and>
   (\<exists>xs. Permutation_nth \<lparr>p_seed = [1::int, 2, 3], p_size = 3, p_length = Num 6\<rparr> (Num 1)
      = Some (Inr xs)) \<and>
   (\<exists>xs. Combination_nth
      \<lparr>c_perm = \<lparr>p_seed = [1::int, 2, 3, 4], p_size = 2, p_length = Num 12\<rparr>,
       c_size = 2, c_length = Num 6\<rparr> (Num 1) = Some (Inr xs))"
proof -
  have b: "BaseN_new [1::int, 2] 3 =
      Inr \<lparr>b_seed = [1, 2], b_size = 3, b_base = 2, b_length = Num 8\<rparr>"
    by code_simp
  have p: "Permutation_new (array [1::int, 2, 3]) 0 =
      Some (Inr \<lparr>p_seed = [1, 2, 3], p_size = 3, p_length = Num 6\<rparr>)"
    by code_simp
  have c: "Combination_new (array [1::int, 2, 3, 4]) 2 =
      Some (Inr \<lparr>c_perm = \<lparr>p_seed = [1, 2, 3, 4], p_size = 2, p_length = Num 12\<rparr>,
                 c_size = 2, c_length = Num 6\<rparr>)"
    by code_simp
  have s: "val (ps_length (PowerSet_new (\<lambda>_. [1::int, 2]) 0)) = 4"
    by code_simp
  have x: "val (cp_length (CartesianProduct_new [[1::int, 2], [3, 4]])) = 4"
    by code_simp
  show ?thesis
    using nth_range_errors [OF b p c, where n = "Num 1" and \<sigma> = "\<lambda>_. [1::int, 2]"
        and \<sigma>' = "\<lambda>_. [1::int, 2]" and a = 0 and args = "[[1::int, 2], [3, 4]]"]
    by (simp add: b p c s x)
qed

text \<open>
  Claim C4 (the code departs from it). Every variant is to raise a range error for a
  rank below 0 or at or beyond \<open>length\<close>. \<open>Permutation([1, 2, 3])\<close> has length 6, and
  \<open>nth(6)\<close> returns \<open>[1, 2, 3]\<close>, \<open>nth(-1)\<close> returns \<open>[1, 3, 2]\<close>: \<open>Permutation.nth\<close> and
  \<open>Combination.nth\<close> lack the two tests that open the \<open>nth\<close> of the other three classes.
\<close>

theorem Permutation_nth_no_range_check:
  "Permutation_new (array [1::int, 2, 3]) 0 =
     Some (Inr \<lparr>p_seed = [1, 2, 3], p_size = 3, p_length = Num 6\<rparr>) \<and>
   Permutation_nth \<lparr>p_seed = [1::int, 2, 3], p_size = 3, p_length = Num 6\<rparr> (Num 6) =
     Some (Inr [Some 1, Some 2, Some 3]) \<and>
   Permutation_nth \<lparr>p_seed = [1::int, 2, 3], p_size = 3, p_length = Num 6\<rparr> (Num (- 1)) =
     Some (Inr [Some 1, Some 3, Some 2]) \<and>
   BaseN_nth \<lparr>b_seed = [1::int, 2], b_size = 3, b_base = 2, b_length = Num 8\<rparr> (Num 8) =
     Inl RangeError"
  by code_simp



lemma Permutation_new_without_length:
  "it_length seed = None \<Longrightarrow> Permutation_new seed size' = Some (Inl TypeError)"
  by (simp add: Permutation_new_def Let_def)

lemma Combination_new_without_length:
  "it_length seed = None \<Longrightarrow> Combination_new seed size' = Some (Inl TypeError)"
  by (simp add: Combination_new_def Permutation_new_returns)




section \<open>CartesianProduct of two factors\<close>

lemma CartesianProduct_loop_two:
  assumes "0 \<le> r" "r < int (length a) * int (length b)"
  shows "CartesianProduct_loop [a, b] 2 big 0 r [] =
         Inr [Some (a ! nat (r mod int (length a))), Some (b ! nat (r div int (length a)))]"
proof -
  define A where "A = int (length a)"
  define B where "B = int (length b)"
  have A: "0 < A" and B: "0 < B"
    using assms unfolding A_def B_def by (auto simp: zero_less_mult_iff)
  define d where "d = r mod A"
  define q where "q = r div A"
  have d: "0 \<le> d" "d < A" "r smod A = d"
    using A assms(1) by (simp_all add: d_def smod_mod_positive)
  have q: "0 \<le> q" "q < B" "(r - d) sdiv A = q"
  proof -
    show "0 \<le> q" using A assms(1) by (simp add: q_def pos_imp_zdiv_nonneg_iff)
    have "r < B * A"
      using assms(2) unfolding A_def B_def by (simp add: mult.commute)
    then show "q < B"
      unfolding q_def using A by (simp add: int_div_less_iff)
    have "r - d = q * A" unfolding d_def q_def by (simp add: minus_mod_eq_div_mult)
    then show "(r - d) sdiv A = q"
      using A \<open>0 \<le> q\<close> by (simp add: sdiv_nonneg)
  qed
  have ne: "a \<noteq> []" "b \<noteq> []"
    using A B unfolding A_def B_def by auto
  have d': "r smod int (length a) = d" "(r - d) sdiv int (length a) = q"
    using d(3) q(3) unfolding A_def by simp_all
  have q': "q smod int (length b) = q"
    using q B unfolding B_def by (simp add: smod_mod_positive)
  have e1: "element [a, b] 0 = Some a" "element [a, b] 1 = Some b"
    by (simp_all add: element_def)
  have e2: "element a d = Some (a ! nat d)" "element b q = Some (b ! nat q)"
    using d q by (simp_all add: element_def A_def B_def)
  have s2: "CartesianProduct_loop [a, b] 2 big 2 n xs = Inr xs" for n xs
    by (subst CartesianProduct_loop.simps) simp
  have s1: "CartesianProduct_loop [a, b] 2 big 1 q xs = Inr (xs @ [Some (b ! nat q)])" for xs
    by (subst CartesianProduct_loop.simps) (simp add: e1 e2 q' s2 ne Let_def)
  have "CartesianProduct_loop [a, b] 2 big 0 r [] = Inr [Some (a ! nat d), Some (b ! nat q)]"
    by (subst CartesianProduct_loop.simps) (simp add: e1 e2 d' q' s1 ne Let_def)
  then show ?thesis by (simp add: d_def q_def A_def)
qed


lemma rank_decomposition:
  fixes A B :: nat
  assumes "i < A" "j < B"
  shows "\<exists>!r. 0 \<le> r \<and> r < int A * int B \<and> nat (r mod int A) = i \<and> nat (r div int A) = j"
proof (rule ex1I [of _ "int i + int A * int j"])
  have A: "0 < int A" using assms(1) by simp
  have "int i + int A * int j < int A + int A * int j" using assms(1) by simp
  also have "\<dots> = int A * (int j + 1)" by (simp add: algebra_simps)
  also have "\<dots> \<le> int A * int B"
    using assms(2) by (intro mult_left_mono) simp_all
  finally have lt: "int i + int A * int j < int A * int B" .
  have "(int i + int A * int j) mod int A = int i" "(int i + int A * int j) div int A = int j"
    using assms(1) by simp_all
  then show "0 \<le> int i + int A * int j \<and> int i + int A * int j < int A * int B \<and>
        nat ((int i + int A * int j) mod int A) = i \<and> nat ((int i + int A * int j) div int A) = j"
    using lt by simp
next
  fix r assume r: "0 \<le> r \<and> r < int A * int B \<and> nat (r mod int A) = i \<and> nat (r div int A) = j"
  have A: "0 < int A" using assms(1) by simp
  have "0 \<le> r mod int A" "0 \<le> r div int A"
    using A r by (simp_all add: pos_imp_zdiv_nonneg_iff)
  then have "r mod int A = int i" "r div int A = int j" using r by auto
  then show "r = int i + int A * int j"
    using mult_div_mod_eq [of "int A" r] by simp
qed

text \<open>
  Claim C5, amended. \<open>CartesianProduct(a, b)\<close> has length \<open>|a| * |b|\<close>; for a rank \<open>r\<close> in
  \<open>[0, length)\<close>, \<open>nth(r)\<close> is \<open>[a[r mod |a|], b[r div |a|]]\<close>, so the first factor varies
  fastest and the last slowest; and every pair of positions \<open>(i, j)\<close> belongs to exactly
  one rank of that range. A Number rank gives what the BigInt of the same value gives.
\<close>

theorem CartesianProduct_pairs:
  "val (cp_length (CartesianProduct_new [a, b])) = int (length a) * int (length b) \<and>
   (0 \<le> r \<and> r < int (length a) * int (length b) \<longrightarrow>
      CartesianProduct_nth (CartesianProduct_new [a, b]) (Big r) =
        Inr [Some (a ! nat (r mod int (length a))), Some (b ! nat (r div int (length a)))] \<and>
      (r \<le> MAX_SAFE_INTEGER \<longrightarrow>
         CartesianProduct_nth (CartesianProduct_new [a, b]) (Num r) =
           CartesianProduct_nth (CartesianProduct_new [a, b]) (Big r)) \<and>
      nat (r mod int (length a)) < length a \<and> nat (r div int (length a)) < length b) \<and>
   (i < length a \<and> j < length b \<longrightarrow>
      (\<exists>!r. 0 \<le> r \<and> r < int (length a) * int (length b) \<and>
            nat (r mod int (length a)) = i \<and> nat (r div int (length a)) = j))"
proof (intro conjI impI)
  show len: "val (cp_length (CartesianProduct_new [a, b])) = int (length a) * int (length b)"
    by (simp add: CartesianProduct_new_eq val_downcast)
  show "\<exists>!r. 0 \<le> r \<and> r < int (length a) * int (length b) \<and>
            nat (r mod int (length a)) = i \<and> nat (r div int (length a)) = j"
    if "i < length a \<and> j < length b"
    using that by (intro rank_decomposition) simp_all
next
  assume r: "0 \<le> r \<and> r < int (length a) * int (length b)"
  then have A: "0 < int (length a)" and B: "0 < int (length b)"
    by (auto simp: zero_less_mult_iff)
  have loop: "CartesianProduct_loop [a, b] 2 big 0 r [] =
      Inr [Some (a ! nat (r mod int (length a))), Some (b ! nat (r div int (length a)))]" for big
    using r by (intro CartesianProduct_loop_two) simp_all
  show "CartesianProduct_nth (CartesianProduct_new [a, b]) (Big r) =
        Inr [Some (a ! nat (r mod int (length a))), Some (b ! nat (r div int (length a)))]"
    using r loop by (simp add: CartesianProduct_nth_def CartesianProduct_new_eq val_downcast)
  show "CartesianProduct_nth (CartesianProduct_new [a, b]) (Num r) =
        CartesianProduct_nth (CartesianProduct_new [a, b]) (Big r)"
    if "r \<le> MAX_SAFE_INTEGER"
    using r loop by (simp add: CartesianProduct_nth_def CartesianProduct_new_eq val_downcast)
  show "nat (r mod int (length a)) < length a"
    using A r by (simp add: nat_less_iff)
  have "r < int (length b) * int (length a)" using r by (simp add: mult.commute)
  then have "r div int (length a) < int (length b)"
    using A by (simp add: int_div_less_iff)
  then show "nat (r div int (length a)) < length b"
    using A r by (simp add: nat_less_iff pos_imp_zdiv_nonneg_iff)
qed

theorem CartesianProduct_pairs_witness:
  "val (cp_length (CartesianProduct_new [[1::int, 2], [3, 4, 5]])) = 6 \<and>
   CartesianProduct_nth (CartesianProduct_new [[1::int, 2], [3, 4, 5]]) (Big 3) =
     Inr [Some 2, Some 4] \<and>
   CartesianProduct_nth (CartesianProduct_new [[1::int, 2], [3, 4, 5]]) (Num 3) =
     Inr [Some 2, Some 4] \<and>
   (\<exists>!r. 0 \<le> r \<and> r < 6 \<and> nat (r mod 2) = 1 \<and> nat (r div 2) = 1)"
  using CartesianProduct_pairs [of "[1::int, 2]" "[3, 4, 5]" 3 1 1]
  by (simp add: MAX_SAFE_INTEGER_def)

text \<open>
  The claim as stated has the first factor vary slowest. For \<open>a = [1, 2]\<close> and
  \<open>b = [3, 4]\<close> the ranks 0, 1, 2, 3 give \<open>[1, 3]\<close>, \<open>[2, 3]\<close>, \<open>[1, 4]\<close>, \<open>[2, 4]\<close>:
  from one rank to the next it is the first factor that changes, and \<open>nth(1)\<close> is not
  \<open>[a[1 div |b|], b[1 mod |b|]] = [1, 4]\<close>, which an outer first factor would give.
\<close>

theorem CartesianProduct_first_factor_fastest:
  "map (\<lambda>r. CartesianProduct_nth (CartesianProduct_new [[1::int, 2], [3, 4]]) (Num r))
     [0, 1, 2, 3] =
   [Inr [Some 1, Some 3], Inr [Some 2, Some 3], Inr [Some 1, Some 4], Inr [Some 2, Some 4]] \<and>
   CartesianProduct_nth (CartesianProduct_new [[1::int, 2], [3, 4]]) (Num 1) \<noteq>
     Inr [Some ([1, 2] ! nat (1 div 2)), Some ([3, 4] ! nat (1 mod 2))]"
  by code_simp


section \<open>PowerSet and the caller's array\<close>

text \<open>
  Claim C9 (the code departs from it). The caller's array \<open>[1, 2]\<close> is at address 0
  and \<open>PowerSet\<close> is built from it. Before the caller writes to the array, \<open>nth(1)\<close> is
  \<open>[1]\<close>; after the caller's \<open>a[0] = 9\<close> the same object returns \<open>[9]\<close>, whereas
  \<open>length\<close>, computed at construction, stays 4. The other four constructors copy
  (\<open>[...seed]\<close>): what they keep is the contents at construction.
\<close>

theorem PowerSet_sees_later_writes:
  "PowerSet_new (\<lambda>_. [1::int, 2]) 0 = \<lparr>ps_seed = 0, ps_length = Num 4\<rparr> \<and>
   PowerSet_nth (\<lambda>_. [1::int, 2]) \<lparr>ps_seed = 0, ps_length = Num 4\<rparr> (Num 1) =
     Some (Inr [Some 1]) \<and>
   PowerSet_nth ((\<lambda>_. [1::int, 2])(0 := [9, 2])) \<lparr>ps_seed = 0, ps_length = Num 4\<rparr> (Num 1) =
     Some (Inr [Some 9])"
  by code_simp

section \<open>Combination and the remap findIndex\<close>

text \<open>
  Claim C2 (the code departs from it). \<open>Combination([1, 2, 3], 2)\<close> has length 3 and its
  three ranks give \<open>[1, 2]\<close>, \<open>[1, 3]\<close> and \<open>[2, 1]\<close>: the last is not in seed order, it
  repeats the subset of rank 0, and the subset \<open>{2, 3}\<close> is never produced.
\<close>

theorem Combination_3_2_repeats_subset:
  "Combination_new (array [1::int, 2, 3]) 2 =
     Some (Inr \<lparr>c_perm = \<lparr>p_seed = [1, 2, 3], p_size = 2, p_length = Num 6\<rparr>,
                c_size = 2, c_length = Num 3\<rparr>) \<and>
   map (Combination_nth \<lparr>c_perm = \<lparr>p_seed = [1::int, 2, 3], p_size = 2, p_length = Num 6\<rparr>,
                c_size = 2, c_length = Num 3\<rparr>) [Num 0, Num 1, Num 2] =
     [Some (Inr [Some 1, Some 2]), Some (Inr [Some 1, Some 3]), Some (Inr [Some 2, Some 1])]"
  by code_simp

text \<open>The two concrete cases that claim C2 names do hold.\<close>

lemma Combination_4_2_examples:
  "Combination_new (array [1::int, 2, 3, 4]) 2 =
     Some (Inr \<lparr>c_perm = \<lparr>p_seed = [1, 2, 3, 4], p_size = 2, p_length = Num 12\<rparr>,
                c_size = 2, c_length = Num 6\<rparr>) \<and>
   Combination_nth \<lparr>c_perm = \<lparr>p_seed = [1::int, 2, 3, 4], p_size = 2, p_length = Num 12\<rparr>,
                c_size = 2, c_length = Num 6\<rparr> (Num 0) = Some (Inr [Some 1, Some 2]) \<and>
   Combination_nth \<lparr>c_perm = \<lparr>p_seed = [1::int, 2, 3, 4], p_size = 2, p_length = Num 12\<rparr>,
                c_size = 2, c_length = Num 6\<rparr> (Num 5) = Some (Inr [Some 3, Some 4])"
  by code_simp

text \<open>
  Claim C3 (the code departs from it). For a seed of 3 elements and size 2, rank 2 is
  within \<open>[0, length)\<close>. \<open>findIndex(2)\<close> is 2, as a Number and as a BigInt, and the
  permutation of rank 2 is \<open>[2, 1]\<close>. The binomial-coefficient formulation decodes rank
  2 to the positions \<open>[1, 2]\<close> and remaps it to the permutation rank 3, whose
  permutation is \<open>[2, 3]\<close>.
\<close>

theorem findIndex_differs_from_remap_binomial:
  "findIndex (Num 2) = Inr (Num 2) \<and> findIndex (Big 2) = Inr (Big 2) \<and>
   combinadic 3 2 2 = [1, 2] \<and> remap_binomial 3 2 2 = 3 \<and>
   Permutation_nth \<lparr>p_seed = [1::int, 2, 3], p_size = 2, p_length = Num 6\<rparr> (Num 2) =
     Some (Inr [Some 2, Some 1]) \<and>
   Permutation_nth \<lparr>p_seed = [1::int, 2, 3], p_size = 2, p_length = Num 6\<rparr> (Num 3) =
     Some (Inr [Some 2, Some 3])"
  by code_simp

section \<open>What combination returns\<close>

text \<open>
  For \<open>0 \<le> k \<le> n\<close>, \<open>combination(n, k)\<close> returns the binomial coefficient when
  \<open>P(n, k)\<close> and \<open>k!\<close> come back in the same representation, and raises a TypeError
  when \<open>P(n, k)\<close> is a BigInt and \<open>k!\<close> a Number.
\<close>

lemma falling_product_binomial:
  assumes "k \<le> N"
  shows "(\<Prod>i<k. int N - int i) = fact k * int (N choose k)"
proof -
  have "(\<Prod>i<k. int N - int i) * fact (N - k) = fact N"
    using assms by (rule falling_product_times_fact)
  also have "(fact N :: int) = int (fact k * fact (N - k) * (N choose k))"
    using binomial_fact_lemma [OF assms] by simp
  also have "\<dots> = (fact k * int (N choose k)) * fact (N - k)"
    by (simp add: algebra_simps)
  finally show ?thesis by simp
qed

lemma combination_returns:
  assumes "0 \<le> k" "k \<le> n"
  shows "combination n k =
    Some (if (\<Prod>i<nat k. n - int i) \<le> MAX_SAFE_INTEGER \<or> MAX_SAFE_INTEGER < fact (nat k)
          then Inr (downcast (int (nat n choose nat k))) else Inl TypeError)"
proof -
  define F where "F = (\<Prod>i<nat k. n - int i)"
  define f :: int where "f = fact (nat k)"
  define c where "c = int (nat n choose nat k)"
  have n: "n = int (nat n)" using assms by simp
  have F: "F = f * c"
    unfolding F_def f_def c_def using assms
    by (subst n, intro falling_product_binomial) simp
  have f: "0 < f" by (simp add: f_def)
  have c: "0 < c" using assms by (simp add: c_def)
  have fF: "f \<le> F" using f c unfolding F by simp
  have pn: "permutation n k = Some (downcast F)"
    using assms by (simp add: permutation_returns F_def)
  have pk: "permutation k k = Some (downcast f)"
    using assms(1) falling_product_fact [of "nat k"] by (simp add: permutation_returns f_def)
  have q: "F div f = c" "F sdiv f = c" "f dvd F"
    using f c unfolding F by (simp_all add: sdiv_nonneg)
  consider "F \<le> MAX_SAFE_INTEGER" | "MAX_SAFE_INTEGER < f" | "MAX_SAFE_INTEGER < F" "f \<le> MAX_SAFE_INTEGER"
    by linarith
  then show ?thesis
  proof cases
    case 1
    then have "f \<le> MAX_SAFE_INTEGER" using fF by simp
    then show ?thesis
      using 1 f q by (simp add: combination_def pn pk downcast_def F_def [symmetric] f_def [symmetric] c_def [symmetric])
  next
    case 2
    then have "MAX_SAFE_INTEGER < F" using fF by simp
    then show ?thesis
      using 2 f q by (simp add: combination_def pn pk downcast_def F_def [symmetric] f_def [symmetric] c_def [symmetric])
  next
    case 3
    then show ?thesis
      by (simp add: combination_def pn pk downcast_def F_def [symmetric] f_def [symmetric] c_def [symmetric])
  qed
qed



section \<open>PowerSet with a Number rank from \<open>2^31\<close>\<close>

text \<open>
  On a Number whose \<open>ToInt32\<close> is negative, \<open>>>\<close> keeps the sign, so the loop of
  \<open>PowerSet.nth\<close> never reads 0: for a seed of 32 elements the rank \<open>2^31\<close> is within
  \<open>[0, length)\<close> and \<open>nth\<close> does not return.
\<close>

lemma shr32_negative:
  assumes "sint (ToInt32 n) < 0"
  shows "sint (ToInt32 (shr32 n 1)) < 0"
proof -
  have "ToInt32 (shr32 n 1) = signed_drop_bit 1 (ToInt32 n)"
    by (simp add: shr32_def ToInt32_def)
  then have "sint (ToInt32 (shr32 n 1)) = sint (ToInt32 n) div 2"
    by (simp add: sint_signed_drop_bit_eq drop_bit_eq_div)
  then show ?thesis using assms by simp
qed

lemma PowerSet_loop_number_negative:
  assumes "PowerSet_loop seed big i n result = Some y"
  shows "big \<or> 0 \<le> sint (ToInt32 n)"
proof (rule PowerSet_loop.raw_induct
    [where P = "\<lambda>seed big i n result y. big \<or> 0 \<le> sint (ToInt32 n)", OF _ assms])
  fix loop :: "'a list \<Rightarrow> bool \<Rightarrow> int \<Rightarrow> int \<Rightarrow> 'a option list \<Rightarrow> 'a option list option"
  fix seed big i n result y
  assume IH: "\<And>seed big i n result y.
      loop seed big i n result = Some y \<Longrightarrow> big \<or> 0 \<le> sint (ToInt32 n)"
  assume body: "(if n \<noteq> 0
      then if big
           then loop seed big (i + 1) (drop_bit 1 n)
                 (if n AND 1 \<noteq> 0 then result @ [element seed i] else result)
           else loop seed big (i + 1) (shr32 n 1)
                 (if and32 n 1 \<noteq> 0 then result @ [element seed i] else result)
      else Some result) = Some y"
  show "big \<or> 0 \<le> sint (ToInt32 n)"
  proof (rule ccontr)
    assume "\<not> (big \<or> 0 \<le> sint (ToInt32 n))"
    then have b: "\<not> big" and neg: "sint (ToInt32 n) < 0" by simp_all
    then have "n \<noteq> 0" by (auto simp: ToInt32_def)
    then obtain r where "loop seed big (i + 1) (shr32 n 1) r = Some y"
      using body b by (simp split: if_splits)
    then have "big \<or> 0 \<le> sint (ToInt32 (shr32 n 1))"
      by (rule IH)
    then show False using b shr32_negative [OF neg] by simp
  qed
qed

lemma PowerSet_nth_32_does_not_return:
  "length (\<sigma> a) = 32 \<Longrightarrow>
   PowerSet_new \<sigma> a = \<lparr>ps_seed = a, ps_length = Num (2 ^ 32)\<rparr> \<and>
   PowerSet_nth \<sigma> (PowerSet_new \<sigma> a) (Num (2 ^ 31)) = None"
proof -
  assume len: "length (\<sigma> a) = 32"
  have new: "PowerSet_new \<sigma> a = \<lparr>ps_seed = a, ps_length = Num (2 ^ 32)\<rparr>"
    using len by (simp add: PowerSet_new_def downcast_def MAX_SAFE_INTEGER_def)
  have "sint (ToInt32 (2 ^ 31)) < 0"
    by (simp add: ToInt32_def)
  then have "PowerSet_loop (\<sigma> a) False 0 (2 ^ 31) [] = None"
    using PowerSet_loop_number_negative [of "\<sigma> a" False 0 "2 ^ 31" "[]"]
    by (cases "PowerSet_loop (\<sigma> a) False 0 (2 ^ 31) []") auto
  then show ?thesis
    by (simp add: new PowerSet_nth_def)
qed

end
